theory Spec2Isabelle
  imports Complex_Main "HOL-Library.Char_ord" "HOL-Library.List_Lexorder"
begin

section \<open>Python strings and regular expressions\<close>

text \<open>
  A Python \<^verbatim>\<open>str\<close> is modelled as a \<^typ>\<open>string\<close> whose characters are code points
  below 256 (the Latin-1 range); \<^term>\<open>length\<close> is then Python's \<^verbatim>\<open>len\<close>. The character
  classes below are Python's Unicode classes restricted to that range.
\<close>

definition code :: "char \<Rightarrow> nat" where
  "code c = of_char c"

definition between :: "nat \<Rightarrow> nat \<Rightarrow> char \<Rightarrow> bool" where
  "between lo hi c = (lo \<le> code c \<and> code c \<le> hi)"

text \<open>\<^verbatim>\<open>str.lower\<close> and the one-character upper-case map used by case-insensitive
  matching, as code points: A-Z and the Latin-1 capitals (all of 0xC0-0xDE but the
  multiplication sign) move by 32.\<close>

definition lower_code :: "char \<Rightarrow> nat" where
  "lower_code c =
     (if between 65 90 c \<or> (between 192 222 c \<and> code c \<noteq> 215) then code c + 32 else code c)"

definition upper_code :: "char \<Rightarrow> nat" where
  "upper_code c =
     (if between 97 122 c \<or> (between 224 254 c \<and> code c \<noteq> 247) then code c - 32 else code c)"

definition py_lower :: "string \<Rightarrow> string" where
  "py_lower s = map (\<lambda>c. char_of (lower_code c)) s"

text \<open>The classes \<^verbatim>\<open>\d\<close>, \<^verbatim>\<open>\s\<close> and \<^verbatim>\<open>\w\<close> of a \<^verbatim>\<open>str\<close> pattern, on code points.\<close>

definition is_digit :: "nat \<Rightarrow> bool" where
  "is_digit n = (48 \<le> n \<and> n \<le> 57)"

definition is_space :: "nat \<Rightarrow> bool" where
  "is_space n = ((9 \<le> n \<and> n \<le> 13) \<or> (28 \<le> n \<and> n \<le> 32) \<or> n = 133 \<or> n = 160)"

definition is_word :: "nat \<Rightarrow> bool" where
  "is_word n =
     ((48 \<le> n \<and> n \<le> 57) \<or> (65 \<le> n \<and> n \<le> 90) \<or> (97 \<le> n \<and> n \<le> 122) \<or> n = 95
      \<or> n \<in> {170, 178, 179, 181, 185, 186, 188, 189, 190}
      \<or> (192 \<le> n \<and> n \<le> 255 \<and> n \<noteq> 215 \<and> n \<noteq> 247))"

text \<open>The items of a bracketed character class, and the regular expressions that the
  patterns of the repository use. \<open>Bnd\<close> is \<^verbatim>\<open>\b\<close>, \<open>Bol\<close> is \<^verbatim>\<open>^\<close>, \<open>Eol\<close> is \<^verbatim>\<open>$\<close>,
  \<open>Rep n\<close> is \<^verbatim>\<open>{n}\<close> and \<open>RepMin n\<close> is \<^verbatim>\<open>{n,}\<close>. A lazy star has the language of a
  greedy one, so \<^verbatim>\<open>.*?\<close> is \<open>Star Any\<close>.\<close>

datatype item = Ch char | Rng char char | W | S | D

datatype re =
    Eps
  | Chr char
  | Any
  | Cls "item list"
  | NCls "item list"
  | Bnd
  | Bol
  | Eol
  | Seq re re
  | Star re
  | Plus re
  | Opt re
  | Rep nat re
  | RepMin nat re

fun item_match :: "item \<Rightarrow> nat \<Rightarrow> bool" where
  "item_match (Ch c) n = (n = code c)"
| "item_match (Rng a b) n = (code a \<le> n \<and> n \<le> code b)"
| "item_match W n = is_word n"
| "item_match S n = is_space n"
| "item_match D n = is_digit n"

text \<open>With \<^verbatim>\<open>re.IGNORECASE\<close> (\<open>ic\<close>) a character matches a literal or a class item when
  the character itself, its lower case or its upper case does.\<close>

definition item_ok :: "bool \<Rightarrow> item \<Rightarrow> char \<Rightarrow> bool" where
  "item_ok ic it x =
     (item_match it (code x) \<or> (ic \<and> (item_match it (lower_code x) \<or> item_match it (upper_code x))))"

definition cls_ok :: "bool \<Rightarrow> item list \<Rightarrow> char \<Rightarrow> bool" where
  "cls_ok ic its x = list_ex (\<lambda>it. item_ok ic it x) its"

definition word_at :: "string \<Rightarrow> nat \<Rightarrow> bool" where
  "word_at s i = (i < length s \<and> is_word (code (s ! i)))"

definition boundary :: "string \<Rightarrow> nat \<Rightarrow> bool" where
  "boundary s i = ((0 < i \<and> word_at s (i - 1)) \<noteq> word_at s i)"

text \<open>One round of matching from every position of a list.\<close>

definition step_all :: "(nat \<Rightarrow> nat list) \<Rightarrow> nat list \<Rightarrow> nat list" where
  "step_all f I = remdups (concat (map f I))"

text \<open>Every position reached by zero or more rounds: \<open>seen\<close> are the positions found so
  far and \<open>new\<close> those found in the last round. A round that finds no new position ends
  the search. A position lies in \<open>0..length s\<close>, so there are at most \<open>length s\<close> rounds
  that find one.\<close>

fun star_close :: "(nat \<Rightarrow> nat list) \<Rightarrow> nat \<Rightarrow> nat list \<Rightarrow> nat list \<Rightarrow> nat list" where
  "star_close f 0 seen new = seen"
| "star_close f (Suc n) seen new =
     (if new = [] then seen
      else let found = filter (\<lambda>j. j \<notin> set seen) (step_all f new)
           in star_close f n (seen @ found) found)"

text \<open>\<open>rmatch r ic s i\<close> lists the positions at which a match of \<open>r\<close> that starts at
  position \<open>i\<close> of \<open>s\<close> can end.\<close>

primrec rmatch :: "re \<Rightarrow> bool \<Rightarrow> string \<Rightarrow> nat \<Rightarrow> nat list" where
  "rmatch Eps ic s i = [i]"
| "rmatch (Chr c) ic s i = (if i < length s \<and> item_ok ic (Ch c) (s ! i) then [Suc i] else [])"
| "rmatch Any ic s i = (if i < length s \<and> code (s ! i) \<noteq> 10 then [Suc i] else [])"
| "rmatch (Cls its) ic s i = (if i < length s \<and> cls_ok ic its (s ! i) then [Suc i] else [])"
| "rmatch (NCls its) ic s i = (if i < length s \<and> \<not> cls_ok ic its (s ! i) then [Suc i] else [])"
| "rmatch Bnd ic s i = (if boundary s i then [i] else [])"
| "rmatch Bol ic s i = (if i = 0 then [i] else [])"
| "rmatch Eol ic s i =
     (if i = length s \<or> (Suc i = length s \<and> code (s ! i) = 10) then [i] else [])"
| "rmatch (Seq a b) ic s i = step_all (rmatch b ic s) (rmatch a ic s i)"
| "rmatch (Star a) ic s i = star_close (rmatch a ic s) (length s) [i] [i]"
| "rmatch (Plus a) ic s i =
     (let first = rmatch a ic s i in star_close (rmatch a ic s) (length s) first first)"
| "rmatch (Opt a) ic s i = remdups (i # rmatch a ic s i)"
| "rmatch (Rep n a) ic s i = (step_all (rmatch a ic s) ^^ n) [i]"
| "rmatch (RepMin n a) ic s i =
     (let first = (step_all (rmatch a ic s) ^^ n) [i]
      in star_close (rmatch a ic s) (length s) first first)"

text \<open>\<^verbatim>\<open>re.search\<close>: a match may start anywhere; \<^verbatim>\<open>re.match\<close>: it starts at 0.\<close>

fun search_upto :: "re \<Rightarrow> bool \<Rightarrow> string \<Rightarrow> nat \<Rightarrow> bool" where
  "search_upto r ic s 0 = (rmatch r ic s 0 \<noteq> [])"
| "search_upto r ic s (Suc n) = (rmatch r ic s (Suc n) \<noteq> [] \<or> search_upto r ic s n)"

definition re_search :: "bool \<Rightarrow> re \<Rightarrow> string \<Rightarrow> bool" where
  "re_search ic r s = search_upto r ic s (length s)"

definition re_match :: "bool \<Rightarrow> re \<Rightarrow> string \<Rightarrow> bool" where
  "re_match ic r s = (rmatch r ic s 0 \<noteq> [])"

definition seqs :: "re list \<Rightarrow> re" where
  "seqs rs = foldr Seq rs Eps"

definition lit :: "string \<Rightarrow> re" where
  "lit s = seqs (map Chr s)"

abbreviation bsl :: char where
  "bsl \<equiv> CHR 0x5C"

text \<open>Python's \<^verbatim>\<open>p in s\<close> for strings and \<^verbatim>\<open>s.split(d)\<close> for a one-character \<open>d\<close>.\<close>

fun starts_with :: "string \<Rightarrow> string \<Rightarrow> bool" where
  "starts_with s [] = True"
| "starts_with [] (p # ps) = False"
| "starts_with (c # cs) (p # ps) = (c = p \<and> starts_with cs ps)"

fun py_in :: "string \<Rightarrow> string \<Rightarrow> bool" where
  "py_in p [] = (p = [])"
| "py_in p (c # cs) = (starts_with (c # cs) p \<or> py_in p cs)"

fun py_split :: "char \<Rightarrow> string \<Rightarrow> string list" where
  "py_split d [] = [Nil]"
| "py_split d (c # cs) =
     (if c = d then [] # py_split d cs
      else (case py_split d cs of [] \<Rightarrow> [c # Nil] | x # xs \<Rightarrow> (c # x) # xs))"

section \<open>utils/__init__.py: SecureFileHandler\<close>

record SecureFileHandler =
  MAX_FILE_SIZE :: nat
  ALLOWED_EXTENSIONS :: "string list"
  ALLOWED_MIME_TYPES :: "string list"

definition SecureFileHandler_init :: SecureFileHandler where
  "SecureFileHandler_init =
     \<lparr> MAX_FILE_SIZE = 50 * 1024 * 1024,
       ALLOWED_EXTENSIONS = [''.xlsx''],
       ALLOWED_MIME_TYPES =
         [''application/vnd.openxmlformats-officedocument.spreadsheetml.sheet''] \<rparr>"

text \<open>The upload metadata the validator reads: \<^verbatim>\<open>uploaded_file.name\<close>, \<^verbatim>\<open>.size\<close>
  (a byte count) and \<^verbatim>\<open>.type\<close>.\<close>

record uploaded_file =
  uf_name :: string
  uf_size :: nat
  uf_type :: string

text \<open>The messages of \<^verbatim>\<open>_validate_file\<close>, one constructor per f-string, carrying the
  values the text is formatted from.\<close>

datatype message =
    SizeExceedsLimit nat nat
  | FileTypeNotAllowed string
  | InvalidMimeType string
  | InvalidFilename
  | FileEmpty
  | ValidationSuccessful

record verdict =
  valid :: bool
  message :: message

text \<open>\<^verbatim>\<open>safe_pattern = re.compile(r'^[a-zA-Z0-9._\\-\\s()]+$')\<close>. The raw string holds
  two backslashes twice, so the class reads: \<^verbatim>\<open>a-z\<close>, \<^verbatim>\<open>A-Z\<close>, \<^verbatim>\<open>0-9\<close>, \<^verbatim>\<open>.\<close>, \<^verbatim>\<open>_\<close>,
  the range from an escaped backslash to an escaped backslash, \<^verbatim>\<open>s\<close>, \<^verbatim>\<open>(\<close>, \<^verbatim>\<open>)\<close>.\<close>

definition safe_pattern :: re where
  "safe_pattern =
     seqs [Bol,
           Plus (Cls [Rng CHR ''a'' CHR ''z'', Rng CHR ''A'' CHR ''Z'', Rng CHR ''0'' CHR ''9'',
                      Ch CHR ''.'', Ch CHR ''_'', Rng bsl bsl, Ch CHR ''s'',
                      Ch CHR ''('', Ch CHR '')'']),
           Eol]"

text \<open>\<^verbatim>\<open>'\\\\' in filename\<close>: the literal is not raw, so it is the two-character string
  of two backslashes.\<close>

definition is_safe_filename :: "string \<Rightarrow> bool" where
  "is_safe_filename filename =
     (if py_in ''..'' filename \<or> py_in ''/'' filename \<or> py_in [bsl, bsl] filename then False
      else re_match False safe_pattern filename)"

definition validate_file :: "SecureFileHandler \<Rightarrow> uploaded_file \<Rightarrow> verdict" where
  "validate_file self f =
     (if uf_size f > MAX_FILE_SIZE self
      then \<lparr> valid = False, message = SizeExceedsLimit (uf_size f) (MAX_FILE_SIZE self) \<rparr>
      else let file_extension = ''.'' @ py_lower (last (py_split CHR ''.'' (uf_name f))) in
        if file_extension \<notin> set (ALLOWED_EXTENSIONS self)
        then \<lparr> valid = False, message = FileTypeNotAllowed file_extension \<rparr>
        else if uf_type f \<notin> set (ALLOWED_MIME_TYPES self)
        then \<lparr> valid = False, message = InvalidMimeType (uf_type f) \<rparr>
        else if \<not> is_safe_filename (uf_name f)
        then \<lparr> valid = False, message = InvalidFilename \<rparr>
        else if uf_size f = 0
        then \<lparr> valid = False, message = FileEmpty \<rparr>
        else \<lparr> valid = True, message = ValidationSuccessful \<rparr>)"

section \<open>Tables\<close>

text \<open>
  A pandas \<^verbatim>\<open>DataFrame\<close>: the length of its index and its columns in order, each with
  its label. A column of a numeric dtype holds numbers (floats are modelled as
  rationals, \<open>None\<close> is NaN), a column of dtype \<^verbatim>\<open>object\<close> holds cells of a type \<open>'c\<close>,
  and a column of any other dtype (datetime, bool) holds values that the functions below
  only count and compare. \<open>None\<close> is a null cell. Column labels are unique, as
  \<^verbatim>\<open>pd.read_excel\<close> makes them, so \<^verbatim>\<open>df[col]\<close> is the column with that label.
\<close>

datatype 'c column =
    Num "rat option list"
  | Obj "'c option list"
  | Other "string option list"

record 'c frame =
  nrows :: nat
  cols :: "(string \<times> 'c column) list"

fun height :: "'c column \<Rightarrow> nat" where
  "height (Num xs) = length xs"
| "height (Obj xs) = length xs"
| "height (Other xs) = length xs"

definition wf_frame :: "'c frame \<Rightarrow> bool" where
  "wf_frame df = (distinct (map fst (cols df)) \<and> list_all (\<lambda>(n, c). height c = nrows df) (cols df))"

text \<open>The cells of an \<^verbatim>\<open>object\<close> column as the scanners see them: a value with the
  string that \<^verbatim>\<open>str\<close> gives for it, or a value whose conversion to \<^verbatim>\<open>str\<close> raises.\<close>

datatype pyobj = Printable string | Unprintable

datatype exn = Exception | ZeroDivisionError

text \<open>\<^verbatim>\<open>series.dropna().astype(str)\<close>.\<close>

fun astype_str :: "pyobj option list \<Rightarrow> exn + string list" where
  "astype_str [] = Inr []"
| "astype_str (None # xs) = astype_str xs"
| "astype_str (Some Unprintable # xs) = Inl Exception"
| "astype_str (Some (Printable v) # xs) =
     (case astype_str xs of Inl e \<Rightarrow> Inl e | Inr vs \<Rightarrow> Inr (v # vs))"

text \<open>\<^verbatim>\<open>col_data.str.contains(pattern, case=..., regex=True, na=False).any()\<close>.\<close>

definition contains_any :: "bool \<Rightarrow> re \<Rightarrow> string list \<Rightarrow> bool" where
  "contains_any ic pattern col_data = list_ex (re_search ic pattern) col_data"

text \<open>\<^verbatim>\<open>col_data.str.len().max()\<close>; the maximum of an empty series is NaN (\<open>None\<close>), and
  a comparison with NaN is false.\<close>

definition max_len :: "string list \<Rightarrow> nat option" where
  "max_len col_data =
     (case col_data of [] \<Rightarrow> None | v # vs \<Rightarrow> Some (fold (\<lambda>x m. max (length x) m) vs (length v)))"

definition exceeds :: "nat option \<Rightarrow> nat \<Rightarrow> bool" where
  "exceeds m limit = (case m of None \<Rightarrow> False | Some n \<Rightarrow> n > limit)"

text \<open>\<^verbatim>\<open>df.select_dtypes(include=['object']).columns\<close>, each with its column.\<close>

fun object_columns :: "(string \<times> 'c column) list \<Rightarrow> (string \<times> 'c option list) list" where
  "object_columns [] = []"
| "object_columns ((n, Obj xs) # cs) = (n, xs) # object_columns cs"
| "object_columns ((n, c) # cs) = object_columns cs"

section \<open>utils/__init__.py: the scan at upload time\<close>

text \<open>The list \<^verbatim>\<open>suspicious_patterns\<close> of \<^verbatim>\<open>_security_scan\<close>, as the raw strings read:
  in this file every backslash of a pattern is doubled, so \<^verbatim>\<open>\\w+\<close> is a backslash
  followed by one or more \<^verbatim>\<open>w\<close>, and \<^verbatim>\<open>\\s+\<close> a backslash followed by one or more \<^verbatim>\<open>s\<close>.\<close>

definition p_script :: re where
  "p_script = seqs [lit ''<script'', Star (NCls [Ch CHR ''>'']), Chr CHR ''>'', Star Any,
                    lit ''</script>'']"

definition p_javascript :: re where
  "p_javascript = lit ''javascript:''"

definition p_vbscript :: re where
  "p_vbscript = lit ''vbscript:''"

definition p_select_from :: re where
  "p_select_from = seqs [lit ''SELECT'', Star Any, lit ''FROM'']"

definition scan_patterns :: "re list" where
  "scan_patterns =
     [p_script,
      p_javascript,
      p_vbscript,
      seqs [lit ''on'', Chr bsl, Plus (Chr CHR ''w''), Chr bsl, Star (Chr CHR ''s''), Chr CHR ''=''],
      p_select_from,
      seqs [lit ''DROP'', Chr bsl, Plus (Chr CHR ''s''), lit ''TABLE''],
      seqs [lit ''INSERT'', Chr bsl, Plus (Chr CHR ''s''), lit ''INTO''],
      seqs [lit ''UPDATE'', Chr bsl, Plus (Chr CHR ''s''), Star Any, lit ''SET''],
      seqs [lit ''DELETE'', Chr bsl, Plus (Chr CHR ''s''), lit ''FROM'']]"

datatype scan_message =
    SuspiciousContent string
  | CellTooLarge string
  | ScanPassed
  | ScanFailed exn

record scan_result =
  safe :: bool
  scan_message :: scan_message

text \<open>The first loop of \<^verbatim>\<open>_security_scan\<close>: \<open>Inr (Some r)\<close> is an early return of \<open>r\<close>,
  \<open>Inr None\<close> the end of the loop, \<open>Inl e\<close> an exception.\<close>

fun scan_content :: "(string \<times> pyobj option list) list \<Rightarrow> exn + scan_result option" where
  "scan_content [] = Inr None"
| "scan_content ((col, xs) # rest) =
     (case astype_str xs of
        Inl e \<Rightarrow> Inl e
      | Inr col_data \<Rightarrow>
          if list_ex (\<lambda>pattern. contains_any True pattern col_data) scan_patterns
          then Inr (Some \<lparr> safe = False, scan_message = SuspiciousContent col \<rparr>)
          else scan_content rest)"

text \<open>The second loop, over every column whose dtype is \<^verbatim>\<open>object\<close>.\<close>

fun scan_sizes :: "nat \<Rightarrow> (string \<times> pyobj option list) list \<Rightarrow> exn + scan_result option" where
  "scan_sizes max_cell_size [] = Inr None"
| "scan_sizes max_cell_size ((col, xs) # rest) =
     (case astype_str xs of
        Inl e \<Rightarrow> Inl e
      | Inr col_data \<Rightarrow>
          if exceeds (max_len col_data) max_cell_size
          then Inr (Some \<lparr> safe = False, scan_message = CellTooLarge col \<rparr>)
          else scan_sizes max_cell_size rest)"

definition security_scan :: "pyobj frame \<Rightarrow> scan_result" where
  "security_scan df =
     (let string_columns = object_columns (cols df) in
      case scan_content string_columns of
        Inl e \<Rightarrow> \<lparr> safe = False, scan_message = ScanFailed e \<rparr>
      | Inr (Some r) \<Rightarrow> r
      | Inr None \<Rightarrow>
          (case scan_sizes 10000 (object_columns (cols df)) of
             Inl e \<Rightarrow> \<lparr> safe = False, scan_message = ScanFailed e \<rparr>
           | Inr (Some r) \<Rightarrow> r
           | Inr None \<Rightarrow> \<lparr> safe = True, scan_message = ScanPassed \<rparr>))"

section \<open>utils/security.py: SecurityConfig\<close>

record SecurityLimits =
  MAX_FILE_SIZE_MB :: int
  MAX_CELL_SIZE_CHARS :: nat
  MAX_COLUMNS :: nat
  MAX_ROWS :: nat
  MAX_API_CALLS_PER_MINUTE :: int
  SESSION_TIMEOUT_HOURS :: int

definition SecurityLimits_init :: SecurityLimits where
  "SecurityLimits_init =
     \<lparr> MAX_FILE_SIZE_MB = 50, MAX_CELL_SIZE_CHARS = 10000, MAX_COLUMNS = 1000,
       MAX_ROWS = 1000000, MAX_API_CALLS_PER_MINUTE = 10, SESSION_TIMEOUT_HOURS = 2 \<rparr>"

abbreviation sp :: re where
  "sp \<equiv> Cls [S]"

abbreviation quote :: char where
  "quote \<equiv> CHR 0x27"

text \<open>\<^verbatim>\<open>_load_suspicious_patterns\<close>, grouped as in the source: script injection, SQL
  injection, command injection, path traversal, code execution.\<close>

definition xss_patterns :: "re list" where
  "xss_patterns =
     [p_script,
      p_javascript,
      p_vbscript,
      seqs [lit ''on'', Plus (Cls [W]), Star sp, Chr CHR ''=''],
      seqs [lit ''<iframe'', Star (NCls [Ch CHR ''>'']), Chr CHR ''>''],
      seqs [lit ''<object'', Star (NCls [Ch CHR ''>'']), Chr CHR ''>''],
      seqs [lit ''<embed'', Star (NCls [Ch CHR ''>'']), Chr CHR ''>''],
      seqs [lit ''<form'', Star (NCls [Ch CHR ''>'']), Chr CHR ''>'']]"

definition sql_patterns :: "re list" where
  "sql_patterns =
     [seqs [lit ''SELECT'', Plus sp, Star Any, Plus sp, lit ''FROM''],
      seqs [lit ''INSERT'', Plus sp, lit ''INTO''],
      seqs [lit ''UPDATE'', Plus sp, Star Any, Plus sp, lit ''SET''],
      seqs [lit ''DELETE'', Plus sp, lit ''FROM''],
      seqs [lit ''DROP'', Plus sp, lit ''TABLE''],
      seqs [lit ''DROP'', Plus sp, lit ''DATABASE''],
      seqs [lit ''UNION'', Plus sp, lit ''SELECT''],
      seqs [lit ''OR'', Plus sp, Chr CHR ''1'', Star sp, Chr CHR ''='', Star sp, Chr CHR ''1''],
      seqs [Chr quote, Star sp, lit ''OR'', Star sp, Chr quote, Star Any, Chr quote, Star sp,
            Chr CHR ''='', Star sp, Chr quote]]"

definition command_patterns :: "re list" where
  "command_patterns =
     [seqs [Chr CHR '';'', Star sp, lit ''rm'', Plus sp, lit ''-rf''],
      seqs [Chr CHR '';'', Star sp, lit ''cat'', Plus sp, lit ''/etc/''],
      seqs [Chr CHR '';'', Star sp, lit ''wget'', Plus sp],
      seqs [Chr CHR '';'', Star sp, lit ''curl'', Plus sp],
      seqs [Chr CHR ''|'', Star sp, lit ''nc'', Plus sp],
      seqs [lit ''&&'', Star sp, lit ''rm'', Plus sp]]"

definition path_patterns :: "re list" where
  "path_patterns =
     [lit ''../'',
      seqs [lit ''..'', Chr bsl],
      lit ''/etc/passwd'',
      lit ''/etc/shadow'',
      seqs [lit ''C:'', Chr bsl, lit ''Windows'']]"

definition code_patterns :: "re list" where
  "code_patterns =
     [seqs [lit ''eval'', Star sp, Chr CHR ''(''],
      seqs [lit ''exec'', Star sp, Chr CHR ''(''],
      seqs [lit ''system'', Star sp, Chr CHR ''(''],
      seqs [lit ''shell_exec'', Star sp, Chr CHR ''(''],
      seqs [lit ''base64_decode'', Star sp, Chr CHR ''('']]"

definition load_suspicious_patterns :: "re list" where
  "load_suspicious_patterns =
     xss_patterns @ sql_patterns @ command_patterns @ path_patterns @ code_patterns"

text \<open>The state of a \<^verbatim>\<open>SecurityConfig\<close>; the logger is left out. \<^verbatim>\<open>api_call_tracker\<close> maps an
  identity to its dictionary from minute to call count.\<close>

record SecurityConfig =
  limits :: SecurityLimits
  suspicious_patterns :: "re list"
  api_call_tracker :: "string \<rightharpoonup> (int \<rightharpoonup> int)"

definition SecurityConfig_init :: SecurityConfig where
  "SecurityConfig_init =
     \<lparr> limits = SecurityLimits_init,
       suspicious_patterns = load_suspicious_patterns,
       api_call_tracker = Map.empty \<rparr>"

text \<open>\<^verbatim>\<open>_scan_column_for_threats\<close>: an exception of the conversion is caught and the
  column reported as suspicious.\<close>

definition scan_column_for_threats :: "SecurityConfig \<Rightarrow> pyobj option list \<Rightarrow> bool" where
  "scan_column_for_threats self column =
     (case astype_str column of
        Inl e \<Rightarrow> True
      | Inr column_str \<Rightarrow>
          list_ex (\<lambda>pattern. contains_any True pattern column_str) (suspicious_patterns self))"

abbreviation digit :: re where
  "digit \<equiv> Cls [D]"

abbreviation alnum_items :: "item list" where
  "alnum_items \<equiv> [Rng CHR ''a'' CHR ''z'', Rng CHR ''A'' CHR ''Z'', Rng CHR ''0'' CHR ''9'']"

text \<open>The dictionary \<^verbatim>\<open>pii_patterns\<close>, in insertion order.\<close>

definition pii_patterns :: "(string \<times> re) list" where
  "pii_patterns =
     [(''email'',
       seqs [Plus (Cls (alnum_items @ [Ch CHR ''.'', Ch CHR ''_'', Ch CHR ''%'', Ch CHR ''+'',
                                       Ch CHR ''-''])),
             Chr CHR ''@'',
             Plus (Cls (alnum_items @ [Ch CHR ''.'', Ch CHR ''-''])),
             Chr CHR ''.'',
             RepMin 2 (Cls [Rng CHR ''a'' CHR ''z'', Rng CHR ''A'' CHR ''Z''])]),
      (''phone'',
       seqs [Bnd, Rep 3 digit, Opt (Cls [Ch CHR ''-'', Ch CHR ''.'']), Rep 3 digit,
             Opt (Cls [Ch CHR ''-'', Ch CHR ''.'']), Rep 4 digit, Bnd]),
      (''ssn'',
       seqs [Bnd, Rep 3 digit, Chr CHR ''-'', Rep 2 digit, Chr CHR ''-'', Rep 4 digit, Bnd]),
      (''credit_card'',
       seqs [Bnd, Rep 4 digit, Opt (Cls [Ch CHR ''-'', S]), Rep 4 digit,
             Opt (Cls [Ch CHR ''-'', S]), Rep 4 digit, Opt (Cls [Ch CHR ''-'', S]),
             Rep 4 digit, Bnd])]"

datatype warning =
    SuspiciousColumn string
  | LargeCells string nat
  | MayContainPII string string

datatype error =
    TooManyRows nat nat
  | TooManyColumns nat nat
  | ValidationError exn

record validation_result =
  vr_safe :: bool
  warnings :: "warning list"
  errors :: "error list"
  suspicious_columns :: "string list"

text \<open>\<^verbatim>\<open>_check_for_pii\<close>: one warning for each text column and each kind of PII found in
  it. The patterns are matched case-sensitively.\<close>

fun check_for_pii :: "(string \<times> pyobj option list) list \<Rightarrow> exn + warning list" where
  "check_for_pii [] = Inr []"
| "check_for_pii ((col, xs) # rest) =
     (case astype_str xs of
        Inl e \<Rightarrow> Inl e
      | Inr col_data \<Rightarrow>
          (case check_for_pii rest of
             Inl e \<Rightarrow> Inl e
           | Inr ws \<Rightarrow>
               Inr (map (\<lambda>(pii_type, pattern). MayContainPII col pii_type)
                        (filter (\<lambda>(pii_type, pattern). contains_any False pattern col_data)
                                pii_patterns)
                    @ ws)))"

text \<open>The loop of \<^verbatim>\<open>validate_data_content\<close> over the text columns that scans for
  threats.\<close>

fun scan_columns ::
  "SecurityConfig \<Rightarrow> (string \<times> pyobj option list) list \<Rightarrow> validation_result \<Rightarrow> validation_result"
where
  "scan_columns self [] vr = vr"
| "scan_columns self ((col, xs) # rest) vr =
     scan_columns self rest
       (if scan_column_for_threats self xs
        then vr\<lparr> suspicious_columns := suspicious_columns vr @ [col],
                 warnings := warnings vr @ [SuspiciousColumn col] \<rparr>
        else vr)"

text \<open>The loop over the text columns that checks cell sizes. It returns the result
  built so far and the exception that stopped it, if one did.\<close>

fun check_cell_sizes ::
  "SecurityConfig \<Rightarrow> (string \<times> pyobj option list) list \<Rightarrow> validation_result
     \<Rightarrow> exn option \<times> validation_result"
where
  "check_cell_sizes self [] vr = (None, vr)"
| "check_cell_sizes self ((col, xs) # rest) vr =
     (case astype_str xs of
        Inl e \<Rightarrow> (Some e, vr)
      | Inr col_data \<Rightarrow>
          check_cell_sizes self rest
            (case max_len col_data of
               None \<Rightarrow> vr
             | Some max_cell_size \<Rightarrow>
                 if max_cell_size > MAX_CELL_SIZE_CHARS (limits self)
                 then vr\<lparr> warnings := warnings vr @ [LargeCells col max_cell_size] \<rparr>
                 else vr))"

definition on_exception :: "exn \<Rightarrow> validation_result \<Rightarrow> validation_result" where
  "on_exception e vr = vr\<lparr> vr_safe := False, errors := errors vr @ [ValidationError e] \<rparr>"

definition validate_data_content :: "SecurityConfig \<Rightarrow> pyobj frame \<Rightarrow> validation_result" where
  "validate_data_content self df =
     (let vr0 = \<lparr> vr_safe = True, warnings = [], errors = [], suspicious_columns = [] \<rparr>;
          vr1 = (if nrows df > MAX_ROWS (limits self)
                 then vr0\<lparr> errors := errors vr0 @ [TooManyRows (nrows df) (MAX_ROWS (limits self))],
                           vr_safe := False \<rparr>
                 else vr0);
          vr2 = (if length (cols df) > MAX_COLUMNS (limits self)
                 then vr1\<lparr> errors := errors vr1
                                       @ [TooManyColumns (length (cols df)) (MAX_COLUMNS (limits self))],
                           vr_safe := False \<rparr>
                 else vr1);
          string_columns = object_columns (cols df);
          vr3 = scan_columns self string_columns vr2
      in case check_cell_sizes self string_columns vr3 of
           (Some e, vr) \<Rightarrow> on_exception e vr
         | (None, vr4) \<Rightarrow>
             (case check_for_pii (object_columns (cols df)) of
                Inl e \<Rightarrow> on_exception e vr4
              | Inr pii_warnings \<Rightarrow> vr4\<lparr> warnings := warnings vr4 @ pii_warnings \<rparr>))"

text \<open>\<^verbatim>\<open>validate_api_usage\<close>. \<open>current_time\<close> is the value of \<^verbatim>\<open>time.time()\<close>, in seconds, as a
  rational. The function returns its result and the updated state.\<close>

datatype api_result =
    Allowed (remaining_calls: int)
  | RateLimited (retry_after: rat)

definition allowed :: "api_result \<Rightarrow> bool" where
  "allowed r = (case r of Allowed n \<Rightarrow> True | RateLimited t \<Rightarrow> False)"

definition minute_of :: "rat \<Rightarrow> int" where
  "minute_of current_time = \<lfloor>current_time / 60\<rfloor>"

definition py_mod :: "rat \<Rightarrow> rat \<Rightarrow> rat" where
  "py_mod a b = a - b * of_int \<lfloor>a / b\<rfloor>"

definition validate_api_usage :: "SecurityConfig \<Rightarrow> string \<Rightarrow> rat \<Rightarrow> api_result \<times> SecurityConfig"
where
  "validate_api_usage self user_id current_time =
     (let current_minute = minute_of current_time;
          tracker = (case api_call_tracker self user_id of None \<Rightarrow> Map.empty | Some t \<Rightarrow> t);
          user_tracker = (\<lambda>minute. if minute < current_minute - 1 then None else tracker minute);
          current_calls = (case user_tracker current_minute of None \<Rightarrow> 0 | Some n \<Rightarrow> n)
      in if current_calls \<ge> MAX_API_CALLS_PER_MINUTE (limits self)
         then (RateLimited (60 - py_mod current_time 60),
               self\<lparr> api_call_tracker := (api_call_tracker self)(user_id \<mapsto> user_tracker) \<rparr>)
         else (Allowed (MAX_API_CALLS_PER_MINUTE (limits self) - (current_calls + 1)),
               self\<lparr> api_call_tracker :=
                       (api_call_tracker self)
                         (user_id \<mapsto> user_tracker(current_minute \<mapsto> current_calls + 1)) \<rparr>))"

section \<open>utils/data_processor.py: DataProcessor\<close>

text \<open>A float that numpy computes: a number (as a rational), infinity, or NaN. Dividing
  by zero gives a warning and NaN or infinity, not an exception.\<close>

datatype npfloat = Fin rat | Inf | NaN

definition np_divide :: "nat \<Rightarrow> nat \<Rightarrow> npfloat" where
  "np_divide a b = (if b = 0 then (if a = 0 then NaN else Inf) else Fin (of_nat a / of_nat b))"

definition np_times :: "npfloat \<Rightarrow> rat \<Rightarrow> npfloat" where
  "np_times x k = (case x of Fin r \<Rightarrow> Fin (r * k) | Inf \<Rightarrow> Inf | NaN \<Rightarrow> NaN)"

text \<open>\<^verbatim>\<open>series.isnull().sum()\<close> and \<^verbatim>\<open>df.isnull().sum().sum()\<close>.\<close>

definition count_none :: "'a option list \<Rightarrow> nat" where
  "count_none xs = length (filter (\<lambda>x. x = None) xs)"

fun null_count :: "'c column \<Rightarrow> nat" where
  "null_count (Num xs) = count_none xs"
| "null_count (Obj xs) = count_none xs"
| "null_count (Other xs) = count_none xs"

definition total_nulls :: "'c frame \<Rightarrow> nat" where
  "total_nulls df = sum_list (map (\<lambda>(n, c). null_count c) (cols df))"

definition missing_percentage :: "'c frame \<Rightarrow> npfloat" where
  "missing_percentage df = np_times (np_divide (total_nulls df) (nrows df * length (cols df))) 100"

text \<open>Rows, for \<^verbatim>\<open>duplicated\<close> and \<^verbatim>\<open>drop_duplicates\<close>: two rows are equal when their cells
  are, a null being equal to a null.\<close>

datatype 'c cell = CNum "rat option" | CObj "'c option" | COther "string option"

fun cell_at :: "nat \<Rightarrow> 'c column \<Rightarrow> 'c cell" where
  "cell_at i (Num xs) = CNum (xs ! i)"
| "cell_at i (Obj xs) = CObj (xs ! i)"
| "cell_at i (Other xs) = COther (xs ! i)"

definition rows :: "'c frame \<Rightarrow> 'c cell list list" where
  "rows df = map (\<lambda>i. map (\<lambda>(n, c). cell_at i c) (cols df)) [0..<nrows df]"

text \<open>The positions of the rows that are not equal to an earlier row.\<close>

fun first_occurrences :: "'a list \<Rightarrow> 'a list \<Rightarrow> nat \<Rightarrow> nat list" where
  "first_occurrences seen [] i = []"
| "first_occurrences seen (r # rs) i =
     (if r \<in> set seen then first_occurrences seen rs (Suc i)
      else i # first_occurrences (r # seen) rs (Suc i))"

definition kept_rows :: "'c frame \<Rightarrow> nat list" where
  "kept_rows df =
     (if nrows df = 0 \<or> cols df = [] then [0..<nrows df] else first_occurrences [] (rows df) 0)"

definition duplicated_sum :: "'c frame \<Rightarrow> nat" where
  "duplicated_sum df = nrows df - length (kept_rows df)"

fun take_rows :: "nat list \<Rightarrow> 'c column \<Rightarrow> 'c column" where
  "take_rows is (Num xs) = Num (map (\<lambda>i. xs ! i) is)"
| "take_rows is (Obj xs) = Obj (map (\<lambda>i. xs ! i) is)"
| "take_rows is (Other xs) = Other (map (\<lambda>i. xs ! i) is)"

definition drop_duplicates :: "'c frame \<Rightarrow> 'c frame" where
  "drop_duplicates df =
     (let keep = kept_rows df
      in \<lparr> nrows = length keep, cols = map (\<lambda>(n, c). (n, take_rows keep c)) (cols df) \<rparr>)"

definition dropna :: "'a option list \<Rightarrow> 'a list" where
  "dropna xs = concat (map (\<lambda>x. case x of None \<Rightarrow> [] | Some v \<Rightarrow> [v]) xs)"

text \<open>\<^verbatim>\<open>series.quantile(q)\<close>, with pandas' linear interpolation between the two nearest
  order statistics; NaN (\<open>None\<close>) when the series has no value.\<close>

definition quantile :: "rat option list \<Rightarrow> rat \<Rightarrow> rat option" where
  "quantile xs q =
     (let vs = sort (dropna xs); n = length vs
      in if n = 0 then None
         else let h = of_nat (n - 1) * q; lo = nat \<lfloor>h\<rfloor>; hi = nat \<lceil>h\<rceil>
              in Some (vs ! lo + (vs ! hi - vs ! lo) * (h - of_int \<lfloor>h\<rfloor>)))"

text \<open>Arithmetic and comparison with NaN: an operation on NaN is NaN, a comparison with
  NaN is false.\<close>

definition nan_lift :: "(rat \<Rightarrow> rat \<Rightarrow> rat) \<Rightarrow> rat option \<Rightarrow> rat option \<Rightarrow> rat option" where
  "nan_lift f a b = (case (a, b) of (Some x, Some y) \<Rightarrow> Some (f x y) | _ \<Rightarrow> None)"

definition nan_less :: "rat option \<Rightarrow> rat option \<Rightarrow> bool" where
  "nan_less a b = (case (a, b) of (Some x, Some y) \<Rightarrow> x < y | _ \<Rightarrow> False)"

text \<open>The mask \<^verbatim>\<open>(col < lower_bound) | (col > upper_bound)\<close> of the IQR rule.\<close>

definition outlier_mask :: "rat option list \<Rightarrow> bool list" where
  "outlier_mask xs =
     (let Q1 = quantile xs (1 / 4);
          Q3 = quantile xs (3 / 4);
          IQR = nan_lift (-) Q3 Q1;
          lower_bound = nan_lift (-) Q1 (nan_lift (*) (Some (3 / 2)) IQR);
          upper_bound = nan_lift (+) Q3 (nan_lift (*) (Some (3 / 2)) IQR)
      in map (\<lambda>x. nan_less x lower_bound \<or> nan_less upper_bound x) xs)"

text \<open>\<^verbatim>\<open>generate_quality_report\<close>, lines 60 to 69: the rows of the table selected by the
  mask of one numeric column.\<close>

definition outlier_rows :: "rat option list \<Rightarrow> nat" where
  "outlier_rows xs = length (filter (\<lambda>b. b) (outlier_mask xs))"

text \<open>\<^verbatim>\<open>generate_column_profiles\<close>, lines 139 to 146: the entry \<^verbatim>\<open>outlier_count\<close> of the
  profile of a numeric column, the values of the column selected by its mask.\<close>

definition outlier_count :: "rat option list \<Rightarrow> nat" where
  "outlier_count col_data = length (filter (\<lambda>(x, b). b) (zip col_data (outlier_mask col_data)))"

fun numeric_columns :: "(string \<times> 'c column) list \<Rightarrow> (string \<times> rat option list) list" where
  "numeric_columns [] = []"
| "numeric_columns ((n, Num xs) # cs) = (n, xs) # numeric_columns cs"
| "numeric_columns ((n, c) # cs) = numeric_columns cs"

text \<open>\<^verbatim>\<open>series.nunique()\<close>, and the uniqueness ratio of a categorical column: the division
  is one of Python numbers and raises when the table has no row.\<close>

definition nunique :: "'a option list \<Rightarrow> nat" where
  "nunique xs = length (remdups (dropna xs))"

definition uniqueness_ratio :: "nat \<Rightarrow> 'a option list \<Rightarrow> exn + rat" where
  "uniqueness_ratio n xs = (if n = 0 then Inl ZeroDivisionError else Inr (of_nat (nunique xs) / of_nat n * 100))"

fun uniqueness_ratios :: "nat \<Rightarrow> (string \<times> 'a option list) list \<Rightarrow> exn + rat list" where
  "uniqueness_ratios n [] = Inr []"
| "uniqueness_ratios n ((col, xs) # rest) =
     (case uniqueness_ratio n xs of
        Inl e \<Rightarrow> Inl e
      | Inr ratio \<Rightarrow> (case uniqueness_ratios n rest of Inl e \<Rightarrow> Inl e | Inr rs \<Rightarrow> Inr (ratio # rs)))"

text \<open>The report. The numbers are given as computed, before they are formatted with two
  decimals; \<^verbatim>\<open>lowest_column_completeness\<close>, which is rounded to two decimals, is left out.
  \<open>avg_categorical_uniqueness\<close> is \<open>None\<close> for \<^verbatim>\<open>"N/A"\<close>.\<close>

record quality_metrics =
  missing_data_percentage :: npfloat
  duplicate_rows :: nat
  avg_categorical_uniqueness :: "rat option"
  potential_outliers :: nat

definition generate_quality_report :: "'c frame \<Rightarrow> exn + quality_metrics" where
  "generate_quality_report df =
     (let categorical_cols = object_columns (cols df) in
      case (if length categorical_cols > 0
            then (case uniqueness_ratios (nrows df) categorical_cols of
                    Inl e \<Rightarrow> Inl e
                  | Inr rs \<Rightarrow> Inr (Some (sum_list rs / of_nat (length rs))))
            else Inr None) of
        Inl e \<Rightarrow> Inl e
      | Inr avg_uniqueness \<Rightarrow>
          Inr \<lparr> missing_data_percentage = missing_percentage df,
                duplicate_rows = duplicated_sum df,
                avg_categorical_uniqueness = avg_uniqueness,
                potential_outliers =
                  sum_list (map (\<lambda>(col, xs). outlier_rows xs) (numeric_columns (cols df))) \<rparr>)"

subsection \<open>clean_data\<close>

text \<open>
  \<^verbatim>\<open>clean_data\<close> works on \<^verbatim>\<open>DataFrame\<close> objects, which are mutable and passed by reference.
  The store maps the address of each object to its current value; \<open>next_addr\<close> is the
  first address not yet in use. \<^verbatim>\<open>df.copy()\<close> (a deep copy) and \<^verbatim>\<open>drop_duplicates()\<close>
  each make a new object; \<^verbatim>\<open>fillna(..., inplace=True)\<close> on a column of \<^verbatim>\<open>cleaned_df\<close>
  writes to the object \<^verbatim>\<open>cleaned_df\<close> (the behaviour of pandas without copy-on-write).
  The cells of \<^verbatim>\<open>object\<close> columns are strings here.
\<close>

type_synonym addr = nat

record store =
  objs :: "addr \<rightharpoonup> string frame"
  next_addr :: addr

definition new_obj :: "store \<Rightarrow> string frame \<Rightarrow> addr \<times> store" where
  "new_obj h v = (next_addr h, h\<lparr> objs := (objs h)(next_addr h \<mapsto> v), next_addr := Suc (next_addr h) \<rparr>)"

definition update_obj :: "store \<Rightarrow> addr \<Rightarrow> (string frame \<Rightarrow> string frame) \<Rightarrow> store" where
  "update_obj h a f = h\<lparr> objs := (objs h)(a := map_option f (objs h a)) \<rparr>"

text \<open>\<^verbatim>\<open>series.median()\<close>: NaN for a series without values.\<close>

definition median :: "rat option list \<Rightarrow> rat option" where
  "median xs =
     (let vs = sort (dropna xs); n = length vs
      in if n = 0 then None
         else if odd n then Some (vs ! (n div 2))
         else Some ((vs ! (n div 2 - 1) + vs ! (n div 2)) / 2))"

text \<open>\<^verbatim>\<open>series.fillna(value, inplace=True)\<close>; filling with NaN changes nothing.\<close>

definition fillna :: "'a option \<Rightarrow> 'a option list \<Rightarrow> 'a option list" where
  "fillna v xs = map (\<lambda>x. case x of None \<Rightarrow> v | Some y \<Rightarrow> Some y) xs"

text \<open>\<^verbatim>\<open>series.mode()\<close>: the most frequent values, nulls dropped, in sorted order.\<close>

definition mode :: "string option list \<Rightarrow> string list" where
  "mode xs =
     (let vs = dropna xs;
          counts = map (\<lambda>v. count_list vs v) vs
      in if vs = [] then []
         else sort (remdups (filter (\<lambda>v. count_list vs v = fold max counts 0) vs)))"

text \<open>One step of each of the two iterations of \<^verbatim>\<open>clean_data\<close>, on one column.\<close>

fun fill_numeric_missing :: "string column \<Rightarrow> string column" where
  "fill_numeric_missing (Num xs) =
     (if list_ex (\<lambda>x. x = None) xs then Num (fillna (median xs) xs) else Num xs)"
| "fill_numeric_missing c = c"

fun fill_categorical_missing :: "string column \<Rightarrow> string column" where
  "fill_categorical_missing (Obj xs) =
     (if list_ex (\<lambda>x. x = None) xs
      then (let mode_value = (case mode xs of [] \<Rightarrow> ''Unknown'' | m # ms \<Rightarrow> m)
            in Obj (fillna (Some mode_value) xs))
      else Obj xs)"
| "fill_categorical_missing c = c"

definition map_columns :: "(string column \<Rightarrow> string column) \<Rightarrow> string frame \<Rightarrow> string frame" where
  "map_columns f df = df\<lparr> cols := map (\<lambda>(n, c). (n, f c)) (cols df) \<rparr>"

text \<open>\<^verbatim>\<open>cleaning_options.get(key, False)\<close>.\<close>

definition get_option :: "(string \<rightharpoonup> bool) \<Rightarrow> string \<Rightarrow> bool" where
  "get_option cleaning_options key = (case cleaning_options key of None \<Rightarrow> False | Some b \<Rightarrow> b)"

definition default_cleaning_options :: "string \<rightharpoonup> bool" where
  "default_cleaning_options =
     [''remove_duplicates'' \<mapsto> True, ''fill_numeric_missing'' \<mapsto> False,
      ''fill_categorical_missing'' \<mapsto> False, ''remove_outliers'' \<mapsto> False]"

text \<open>\<open>clean_data h df cleaning_options\<close> runs \<^verbatim>\<open>clean_data(df, cleaning_options)\<close> in the store
  \<open>h\<close>, \<open>df\<close> being the address of the argument, and gives the address of the returned
  object and the store after the call; \<open>None\<close> when \<open>df\<close> is not the address of an
  object.\<close>

definition clean_data :: "store \<Rightarrow> addr \<Rightarrow> (string \<rightharpoonup> bool) option \<Rightarrow> (addr \<times> store) option" where
  "clean_data h df cleaning_options =
     (case objs h df of
        None \<Rightarrow> None
      | Some v \<Rightarrow>
          let opts = (case cleaning_options of None \<Rightarrow> default_cleaning_options | Some d \<Rightarrow> d);
              (cleaned_df, h1) = new_obj h v;
              (cleaned_df, h2) =
                 (if get_option opts ''remove_duplicates''
                  then new_obj h1 (drop_duplicates v)
                  else (cleaned_df, h1));
              h3 = (if get_option opts ''fill_numeric_missing''
                    then update_obj h2 cleaned_df (map_columns fill_numeric_missing)
                    else h2);
              h4 = (if get_option opts ''fill_categorical_missing''
                    then update_obj h3 cleaned_df (map_columns fill_categorical_missing)
                    else h3)
          in Some (cleaned_df, h4))"

definition wf_store :: "store \<Rightarrow> bool" where
  "wf_store h = (\<forall>a. objs h a \<noteq> None \<longrightarrow> a < next_addr h)"

section \<open>Notions used in the statements\<close>

text \<open>An alphanumeric character, as \<^verbatim>\<open>str.isalnum\<close> has it on the code points below 256:
  a word character that is not the underscore.\<close>

definition is_alnum :: "char \<Rightarrow> bool" where
  "is_alnum c = (is_word (code c) \<and> code c \<noteq> 95)"

text \<open>A regular expression with a literal character that every match must contain and
  that is not alphanumeric.\<close>

fun has_non_alnum :: "re \<Rightarrow> bool" where
  "has_non_alnum (Chr c) = (\<not> is_alnum c)"
| "has_non_alnum (Seq a b) = (has_non_alnum a \<or> has_non_alnum b)"
| "has_non_alnum (Plus a) = has_non_alnum a"
| "has_non_alnum r = False"

text \<open>One round of matching as a relation between positions.\<close>

definition round_rel :: "(nat \<Rightarrow> nat list) \<Rightarrow> (nat \<times> nat) set" where
  "round_rel f = {(i, j). j \<in> set (f i)}"

text \<open>The text columns that \<^verbatim>\<open>_scan_column_for_threats\<close> reports, in table order.\<close>

definition flagged :: "SecurityConfig \<Rightarrow> (string \<times> pyobj option list) list \<Rightarrow> string list" where
  "flagged self cs = map fst (filter (\<lambda>(col, xs). scan_column_for_threats self xs) cs)"

text \<open>The result of the two size checks at the start of \<^verbatim>\<open>validate_data_content\<close>.\<close>

definition size_checks :: "SecurityConfig \<Rightarrow> pyobj frame \<Rightarrow> validation_result" where
  "size_checks self df =
     (let vr0 = \<lparr> vr_safe = True, warnings = [], errors = [], suspicious_columns = [] \<rparr>;
          vr1 = (if nrows df > MAX_ROWS (limits self)
                 then vr0\<lparr> errors := errors vr0 @ [TooManyRows (nrows df) (MAX_ROWS (limits self))],
                           vr_safe := False \<rparr>
                 else vr0)
      in (if length (cols df) > MAX_COLUMNS (limits self)
          then vr1\<lparr> errors := errors vr1
                                @ [TooManyColumns (length (cols df)) (MAX_COLUMNS (limits self))],
                    vr_safe := False \<rparr>
          else vr1))"

text \<open>Successive calls of \<^verbatim>\<open>validate_api_usage\<close> for one identity, at the given times.\<close>

fun run_calls :: "SecurityConfig \<Rightarrow> string \<Rightarrow> rat list \<Rightarrow> api_result list \<times> SecurityConfig" where
  "run_calls self user_id [] = ([], self)"
| "run_calls self user_id (t # ts) =
     (case validate_api_usage self user_id t of
        (r, self') \<Rightarrow> (case run_calls self' user_id ts of (rs, self'') \<Rightarrow> (r # rs, self'')))"

text \<open>What the call number \<open>k\<close> (from 0) of a minute returns at time \<open>t\<close> when the limit
  is \<open>limit\<close>.\<close>

definition quota_result :: "int \<Rightarrow> nat \<times> rat \<Rightarrow> api_result" where
  "quota_result limit kt =
     (case kt of (k, t) \<Rightarrow>
        if int k < limit then Allowed (limit - (int k + 1)) else RateLimited (60 - py_mod t 60))"

text \<open>Calls by any identities, each with its time; the state after them.\<close>

fun run_log :: "SecurityConfig \<Rightarrow> (string \<times> rat) list \<Rightarrow> SecurityConfig" where
  "run_log self [] = self"
| "run_log self ((user_id, t) # calls) = run_log (snd (validate_api_usage self user_id t)) calls"

text \<open>The count of an identity for a minute (0 when there is none) and the minutes
  for which it has a count.\<close>

definition count_at :: "SecurityConfig \<Rightarrow> string \<Rightarrow> int \<Rightarrow> int" where
  "count_at self u m =
     (case api_call_tracker self u of None \<Rightarrow> 0
      | Some tr \<Rightarrow> (case tr m of None \<Rightarrow> 0 | Some n \<Rightarrow> n))"

definition keys_of :: "SecurityConfig \<Rightarrow> string \<Rightarrow> int set" where
  "keys_of self u = (case api_call_tracker self u of None \<Rightarrow> {} | Some tr \<Rightarrow> dom tr)"

section \<open>Concrete inputs\<close>

definition xlsx_mime :: string where
  "xlsx_mime = ''application/vnd.openxmlformats-officedocument.spreadsheetml.sheet''"

text \<open>Tables with one text column and one cell.\<close>

definition one_cell :: "string \<Rightarrow> pyobj frame" where
  "one_cell v = \<lparr> nrows = 1, cols = [(''comment'', Obj [Some (Printable v)])] \<rparr>"

text \<open>The table of the first concrete scenario of the specification.\<close>

definition scenario1 :: "pyobj frame" where
  "scenario1 =
     \<lparr> nrows = 2,
       cols = [(''name'', Obj [Some (Printable ''John''), Some (Printable ''Jane'')]),
               (''comment'', Obj [Some (Printable ''Normal comment''),
                                  Some (Printable ''<script>alert(1)</script>'')])] \<rparr>"

definition names_table :: "pyobj frame" where
  "names_table =
     \<lparr> nrows = 2,
       cols = [(''name'', Obj [Some (Printable ''John''), None]),
               (''age'', Num [Some 25, Some 30])] \<rparr>"

text \<open>A table with a cell whose conversion to \<^verbatim>\<open>str\<close> raises.\<close>

definition bad_table :: "pyobj frame" where
  "bad_table = \<lparr> nrows = 2, cols = [(''name'', Obj [Some (Printable ''John''), Some Unprintable])] \<rparr>"

definition pii_cell :: string where
  "pii_cell = ''eval(1) ann@example.org''"

text \<open>Eleven calls in minute 1, and calls by two identities at increasing times.\<close>

definition burst :: "rat list" where
  "burst = [60, 61, 62, 63, 64, 65, 66, 67, 68, 69, 70]"

definition call_log :: "(string \<times> rat) list" where
  "call_log = [(''alice'', 10), (''alice'', 70), (''bob'', 100)]"

text \<open>Calls of one identity whose times decrease, as when the clock is set back.\<close>

definition backwards_log :: "(string \<times> rat) list" where
  "backwards_log = [(''alice'', 200), (''alice'', 130), (''alice'', 10)]"

text \<open>Tables for the quality report.\<close>

definition flat_table :: "string frame" where
  "flat_table =
     \<lparr> nrows = 3,
       cols = [(''score'', Num [Some 5, None, Some 5]),
               (''unit'', Obj [Some ''kg'', None, Some ''kg''])] \<rparr>"

definition empty_table :: "string frame" where
  "empty_table = \<lparr> nrows = 0, cols = [] \<rparr>"

definition header_only :: "string frame" where
  "header_only = \<lparr> nrows = 0, cols = [(''name'', Obj [])] \<rparr>"

text \<open>A store with one table, and cleaning options that switch every step on.\<close>

definition sample_table :: "string frame" where
  "sample_table =
     \<lparr> nrows = 4,
       cols = [(''amount'', Num [Some 1, None, Some 1, Some 4]),
               (''unit'', Obj [Some ''kg'', None, Some ''kg'', Some ''g''])] \<rparr>"

definition session_store :: store where
  "session_store = \<lparr> objs = [0 \<mapsto> sample_table], next_addr = 1 \<rparr>"

definition all_options :: "string \<rightharpoonup> bool" where
  "all_options = [''remove_duplicates'' \<mapsto> True, ''fill_numeric_missing'' \<mapsto> True,
                  ''fill_categorical_missing'' \<mapsto> True]"

section \<open>Evaluation\<close>

lemma funpow_numeral_apply: "(f ^^ numeral k) x = f ((f ^^ pred_numeral k) x)"
  by (simp add: numeral_eq_Suc)

lemmas re_eval = re_match_def re_search_def seqs_def lit_def item_ok_def cls_ok_def code_def
  step_all_def lower_code_def upper_code_def between_def is_word_def is_space_def is_digit_def
  boundary_def word_at_def contains_any_def Let_def funpow_numeral_apply

lemma char_of_eq_code: "(char_of (n::nat) = c) = (n mod 256 = of_char c)"
  by (simp add: char_of_eq_iff take_bit_eq_mod)

section \<open>Facts about the matcher\<close>

lemma is_wordI:
  "(97 \<le> n \<and> n \<le> 122) \<or> (65 \<le> n \<and> n \<le> 90) \<or> (192 \<le> n \<and> n \<le> 255 \<and> n \<noteq> 215 \<and> n \<noteq> 247) \<Longrightarrow> is_word n"
  unfolding is_word_def by blast

lemma word_lower:
  assumes "(65 \<le> n \<and> n \<le> 90) \<or> (192 \<le> n \<and> n \<le> 222 \<and> n \<noteq> 215)"
  shows "is_word (n + 32) \<and> n + 32 \<noteq> 95"
proof -
  let ?m = "n + 32"
  from assms have "(97 \<le> ?m \<and> ?m \<le> 122) \<or> (65 \<le> ?m \<and> ?m \<le> 90) \<or> (192 \<le> ?m \<and> ?m \<le> 255 \<and> ?m \<noteq> 215 \<and> ?m \<noteq> 247)"
    by arith
  then have "is_word ?m" by (rule is_wordI)
  moreover from assms have "?m \<noteq> 95" by arith
  ultimately show ?thesis by simp
qed

lemma word_upper:
  assumes "(97 \<le> n \<and> n \<le> 122) \<or> (224 \<le> n \<and> n \<le> 254 \<and> n \<noteq> 247)"
  shows "is_word (n - 32) \<and> n - 32 \<noteq> 95"
proof -
  let ?m = "n - 32"
  from assms have "(97 \<le> ?m \<and> ?m \<le> 122) \<or> (65 \<le> ?m \<and> ?m \<le> 90) \<or> (192 \<le> ?m \<and> ?m \<le> 255 \<and> ?m \<noteq> 215 \<and> ?m \<noteq> 247)"
    by arith
  then have "is_word ?m" by (rule is_wordI)
  moreover from assms have "?m \<noteq> 95" by arith
  ultimately show ?thesis by simp
qed

lemma alnum_case_closed:
  assumes "is_alnum x"
  shows "is_word (lower_code x) \<and> lower_code x \<noteq> 95 \<and> is_word (upper_code x) \<and> upper_code x \<noteq> 95"
  using assms word_lower [of "code x"] word_upper [of "code x"]
  by (simp add: is_alnum_def lower_code_def upper_code_def between_def)


lemma alnum_not_item_ok:
  assumes "\<not> is_alnum c" and "is_alnum x"
  shows "\<not> item_ok ic (Ch c) x"
proof -
  have "code x \<noteq> code c" using assms by (auto simp: is_alnum_def)
  moreover have "lower_code x \<noteq> code c" "upper_code x \<noteq> code c"
    using alnum_case_closed [OF assms(2)] assms(1) by (auto simp: is_alnum_def)
  ultimately show ?thesis by (simp add: item_ok_def)
qed

lemma step_all_set: "set (step_all f I) = (\<Union>i \<in> set I. set (f i))"
  by (simp add: step_all_def)

lemma star_close_mono:
  assumes "\<And>i j. j \<in> set (f i) \<Longrightarrow> i \<le> j"
  shows "j \<in> set (star_close f n seen new) \<Longrightarrow> set new \<subseteq> set seen \<Longrightarrow> \<exists>i \<in> set seen. i \<le> j"
proof (induction n arbitrary: seen new)
  case 0
  then show ?case by auto
next
  case (Suc n)
  show ?case
  proof (cases "new = []")
    case True
    with Suc.prems show ?thesis by auto
  next
    case False
    define found where "found = filter (\<lambda>j. j \<notin> set seen) (step_all f new)"
    have "j \<in> set (star_close f n (seen @ found) found)"
      using Suc.prems(1) False by (simp add: found_def Let_def)
    then obtain k where k: "k \<in> set (seen @ found)" "k \<le> j"
      using Suc.IH [of "seen @ found" found] by auto
    then consider "k \<in> set seen" | "k \<in> set (step_all f new)" by (auto simp: found_def)
    then show ?thesis
    proof cases
      case 1
      with k show ?thesis by blast
    next
      case 2
      then obtain i where "i \<in> set new" "k \<in> set (f i)" by (auto simp: step_all_set)
      then have "i \<in> set seen" "i \<le> j"
        using assms k(2) Suc.prems(2) by (auto intro: order_trans)
      then show ?thesis by blast
    qed
  qed
qed

lemma funpow_step_mono:
  assumes "\<And>i j. j \<in> set (f i) \<Longrightarrow> i \<le> j"
  shows "j \<in> set ((step_all f ^^ n) I) \<Longrightarrow> \<exists>i \<in> set I. i \<le> j"
proof (induction n arbitrary: j)
  case 0
  then show ?case by auto
next
  case (Suc n)
  then obtain k where "k \<in> set ((step_all f ^^ n) I)" "j \<in> set (f k)"
    by (auto simp: step_all_set)
  then show ?case using Suc.IH assms by (meson order_trans)
qed

lemma rmatch_mono: "j \<in> set (rmatch r ic s i) \<Longrightarrow> i \<le> j"
proof (induction r arbitrary: i j)
  case (Seq a b)
  then show ?case by (fastforce simp: step_all_set intro: order_trans)
next
  case (Star a)
  then show ?case using star_close_mono [of "rmatch a ic s" j "length s" "[i]" "[i]"] by auto
next
  case (Plus a)
  have "\<exists>k \<in> set (rmatch a ic s i). k \<le> j"
    using star_close_mono [of "rmatch a ic s" j "length s" "rmatch a ic s i" "rmatch a ic s i"] Plus
    by (auto simp: Let_def)
  then show ?case using Plus.IH by (meson order_trans)
next
  case (Opt a)
  then show ?case by (auto split: if_splits)
next
  case (Rep n a)
  then show ?case using funpow_step_mono [of "rmatch a ic s" j n "[i]"] by auto
next
  case (RepMin n a)
  have "\<exists>k \<in> set ((step_all (rmatch a ic s) ^^ n) [i]). k \<le> j"
    using star_close_mono [of "rmatch a ic s" j "length s" "(step_all (rmatch a ic s) ^^ n) [i]"
        "(step_all (rmatch a ic s) ^^ n) [i]"] RepMin
    by (auto simp: Let_def)
  then obtain k where k: "k \<in> set ((step_all (rmatch a ic s) ^^ n) [i])" "k \<le> j" by blast
  then have "i \<le> k" using funpow_step_mono [of "rmatch a ic s" k n "[i]"] RepMin.IH by auto
  with k show ?case by simp
qed (auto split: if_splits)

lemma rmatch_non_alnum:
  "has_non_alnum r \<Longrightarrow> j \<in> set (rmatch r ic s i) \<Longrightarrow> \<exists>k < length s. \<not> is_alnum (s ! k)"
proof (induction r arbitrary: i j)
  case (Chr c)
  then show ?case using alnum_not_item_ok [of c "s ! i" ic] by (auto split: if_splits)
next
  case (Seq a b)
  from Seq.prems(2) obtain k where "k \<in> set (rmatch a ic s i)" "j \<in> set (rmatch b ic s k)"
    by (auto simp: step_all_set)
  then show ?case using Seq.IH Seq.prems(1) by auto
next
  case (Plus a)
  have "\<exists>k \<in> set (rmatch a ic s i). k \<le> j"
    using star_close_mono [of "rmatch a ic s" j "length s" "rmatch a ic s i" "rmatch a ic s i"]
      Plus.prems(2) rmatch_mono by (auto simp: Let_def)
  then show ?case using Plus.IH Plus.prems(1) by auto
qed auto

lemma search_upto_iff: "search_upto r ic s n \<longleftrightarrow> (\<exists>i \<le> n. rmatch r ic s i \<noteq> [])"
  by (induction n) (auto simp: le_Suc_eq)

lemma nonempty_iff_member: "xs \<noteq> [] \<longleftrightarrow> (\<exists>j. j \<in> set xs)"
  by (cases xs) auto

lemma re_search_iff: "re_search ic r s \<longleftrightarrow> (\<exists>i \<le> length s. \<exists>j. j \<in> set (rmatch r ic s i))"
  by (simp add: re_search_def search_upto_iff nonempty_iff_member)

lemma alnum_no_match:
  assumes "has_non_alnum r" and "list_all is_alnum s"
  shows "\<not> re_search ic r s"
proof
  assume "re_search ic r s"
  then obtain i j where "j \<in> set (rmatch r ic s i)" by (auto simp: re_search_iff)
  then obtain k where "k < length s" "\<not> is_alnum (s ! k)"
    using rmatch_non_alnum [OF assms(1)] by blast
  then show False using assms(2) by (simp add: list_all_length)
qed

subsection \<open>The matcher computes the matches\<close>

lemma step_all_distinct: "distinct (step_all f I)"
  by (simp add: step_all_def)

lemma star_close_sound:
  "j \<in> set (star_close f n seen new) \<Longrightarrow> set new \<subseteq> set seen
     \<Longrightarrow> \<exists>i \<in> set seen. (i, j) \<in> (round_rel f)\<^sup>*"
proof (induction n arbitrary: seen new)
  case 0
  then show ?case by auto
next
  case (Suc n)
  show ?case
  proof (cases "new = []")
    case True
    with Suc.prems show ?thesis by auto
  next
    case False
    define found where "found = filter (\<lambda>j. j \<notin> set seen) (step_all f new)"
    have "j \<in> set (star_close f n (seen @ found) found)"
      using Suc.prems(1) False by (simp add: found_def Let_def)
    then obtain k where k: "k \<in> set (seen @ found)" "(k, j) \<in> (round_rel f)\<^sup>*"
      using Suc.IH [of "seen @ found" found] by auto
    then consider "k \<in> set seen" | "k \<in> set (step_all f new)" by (auto simp: found_def)
    then show ?thesis
    proof cases
      case 1
      with k show ?thesis by blast
    next
      case 2
      then obtain i where i: "i \<in> set new" "k \<in> set (f i)" by (auto simp: step_all_set)
      then have "(i, k) \<in> round_rel f" by (simp add: round_rel_def)
      then have "(i, j) \<in> (round_rel f)\<^sup>*" using k(2) by (rule converse_rtrancl_into_rtrancl)
      moreover have "i \<in> set seen" using i(1) Suc.prems(2) by auto
      ultimately show ?thesis by blast
    qed
  qed
qed

lemma star_close_closed:
  assumes f: "\<And>i j. i \<le> N \<Longrightarrow> j \<in> set (f i) \<Longrightarrow> j \<le> N"
  shows "distinct seen \<Longrightarrow> set seen \<subseteq> {..N} \<Longrightarrow> set new \<subseteq> set seen
         \<Longrightarrow> (\<forall>i \<in> set seen - set new. set (f i) \<subseteq> set seen)
         \<Longrightarrow> Suc N \<le> n + length seen
         \<Longrightarrow> set seen \<subseteq> set (star_close f n seen new)
             \<and> (\<forall>i \<in> set (star_close f n seen new). set (f i) \<subseteq> set (star_close f n seen new))"
proof (induction n arbitrary: seen new)
  case 0
  have "card (set seen) = Suc N \<or> Suc N < card (set seen)"
    using "0.prems"(1,5) by (simp add: distinct_card) linarith
  moreover have "card (set seen) \<le> card {..N}" using "0.prems"(2) by (intro card_mono) simp_all
  ultimately have "card (set seen) = card {..N}" by simp
  then have all: "set seen = {..N}" using "0.prems"(2) by (intro card_subset_eq) simp_all
  have "set (f i) \<subseteq> set seen" if "i \<in> set seen" for i
    using f [of i] that all by auto
  then show ?case by simp
next
  case (Suc n)
  show ?case
  proof (cases "new = []")
    case True
    then show ?thesis using Suc.prems(4) by simp
  next
    case False
    define found where "found = filter (\<lambda>j. j \<notin> set seen) (step_all f new)"
    have res: "star_close f (Suc n) seen new = star_close f n (seen @ found) found"
      using False by (simp add: found_def Let_def)
    have d: "distinct (seen @ found)"
      using Suc.prems(1) by (auto simp: found_def step_all_distinct)
    have newN: "set new \<subseteq> {..N}" using Suc.prems(2,3) by auto
    have "set found \<subseteq> {..N}"
      using f newN by (auto simp: found_def step_all_set)
    then have b: "set (seen @ found) \<subseteq> {..N}" using Suc.prems(2) by simp
    have s: "set found \<subseteq> set (seen @ found)" by simp
    have inv: "\<forall>i \<in> set (seen @ found) - set found. set (f i) \<subseteq> set (seen @ found)"
    proof
      fix i assume "i \<in> set (seen @ found) - set found"
      then have i: "i \<in> set seen" by auto
      show "set (f i) \<subseteq> set (seen @ found)"
      proof (cases "i \<in> set new")
        case True
        then have "set (f i) \<subseteq> set (step_all f new)" by (auto simp: step_all_set)
        then show ?thesis by (auto simp: found_def)
      next
        case False
        then show ?thesis using Suc.prems(4) i by auto
      qed
    qed
    show ?thesis
    proof (cases "found = []")
      case True
      have "star_close f n seen [] = seen" by (cases n) simp_all
      then have "star_close f (Suc n) seen new = seen" using res True by simp
      moreover have "set (f i) \<subseteq> set seen" if "i \<in> set seen" for i
        using inv that True by auto
      ultimately show ?thesis by simp
    next
      case False
      then have "1 \<le> length found" by (cases found) simp_all
      then have fuel: "Suc N \<le> n + length (seen @ found)" using Suc.prems(5) by simp
      have "set (seen @ found) \<subseteq> set (star_close f n (seen @ found) found)
            \<and> (\<forall>i \<in> set (star_close f n (seen @ found) found).
                  set (f i) \<subseteq> set (star_close f n (seen @ found) found))"
        using Suc.IH [OF d b s inv fuel] .
      then show ?thesis unfolding res by auto
    qed
  qed
qed

lemma star_close_Nil: "star_close f n seen [] = seen"
  by (cases n) simp_all

lemma star_close_distinct: "distinct seen \<Longrightarrow> distinct (star_close f n seen new)"
proof (induction n arbitrary: seen new)
  case 0
  then show ?case by simp
next
  case (Suc n)
  have "distinct (seen @ filter (\<lambda>j. j \<notin> set seen) (step_all f new))"
    using Suc.prems by (auto simp: step_all_distinct)
  then show ?case using Suc.IH Suc.prems by (simp add: Let_def)
qed

lemma star_close_le:
  assumes "\<And>i j. i \<le> N \<Longrightarrow> j \<in> set (f i) \<Longrightarrow> j \<le> N"
  shows "set seen \<subseteq> {..N} \<Longrightarrow> set new \<subseteq> set seen \<Longrightarrow> set (star_close f n seen new) \<subseteq> {..N}"
proof (induction n arbitrary: seen new)
  case 0
  then show ?case by simp
next
  case (Suc n)
  define found where "found = filter (\<lambda>j. j \<notin> set seen) (step_all f new)"
  have "set new \<subseteq> {..N}" using Suc.prems by auto
  then have "set found \<subseteq> {..N}" using assms by (auto simp: found_def step_all_set)
  then have "set (star_close f n (seen @ found) found) \<subseteq> {..N}"
    using Suc.IH [of "seen @ found" found] Suc.prems(1) by simp
  then show ?case using Suc.prems(1) by (simp add: found_def Let_def)
qed

lemma funpow_step_le:
  assumes "\<And>i j. i \<le> N \<Longrightarrow> j \<in> set (f i) \<Longrightarrow> j \<le> N"
  shows "set I \<subseteq> {..N} \<Longrightarrow> set ((step_all f ^^ n) I) \<subseteq> {..N}"
  using assms by (induction n) (auto simp: step_all_set)

lemma funpow_step_distinct: "distinct I \<Longrightarrow> distinct ((step_all f ^^ n) I)"
  by (cases n) (simp_all add: step_all_distinct)

lemma rmatch_distinct: "distinct (rmatch r ic s i)"
proof (induction r arbitrary: i)
  case (Seq a b)
  show ?case by (simp add: step_all_distinct)
next
  case (Star a)
  show ?case by (simp add: star_close_distinct)
next
  case (Plus a)
  show ?case using Plus.IH by (simp add: star_close_distinct Let_def)
next
  case (Opt a)
  show ?case by simp
next
  case (Rep n a)
  show ?case by (simp add: funpow_step_distinct)
next
  case (RepMin n a)
  show ?case by (simp add: funpow_step_distinct star_close_distinct Let_def)
qed simp_all

lemma rmatch_le: "i \<le> length s \<Longrightarrow> j \<in> set (rmatch r ic s i) \<Longrightarrow> j \<le> length s"
proof (induction r arbitrary: i j)
  case (Seq a b)
  from Seq.prems(2) obtain k where k: "k \<in> set (rmatch a ic s i)" "j \<in> set (rmatch b ic s k)"
    by (auto simp: step_all_set)
  have "k \<le> length s" using Seq.IH(1) Seq.prems(1) k(1) by blast
  then show ?case using Seq.IH(2) k(2) by blast
next
  case (Star a)
  have "set (star_close (rmatch a ic s) (length s) [i] [i]) \<subseteq> {..length s}"
  proof (rule star_close_le)
    show "\<And>x y. x \<le> length s \<Longrightarrow> y \<in> set (rmatch a ic s x) \<Longrightarrow> y \<le> length s"
      using Star.IH by blast
    show "set [i] \<subseteq> {..length s}" using Star.prems(1) by simp
    show "set [i] \<subseteq> set [i]" by simp
  qed
  then show ?case using Star.prems(2) by auto
next
  case (Plus a)
  have "set (star_close (rmatch a ic s) (length s) (rmatch a ic s i) (rmatch a ic s i))
          \<subseteq> {..length s}"
  proof (rule star_close_le)
    show "\<And>x y. x \<le> length s \<Longrightarrow> y \<in> set (rmatch a ic s x) \<Longrightarrow> y \<le> length s"
      using Plus.IH by blast
    show "set (rmatch a ic s i) \<subseteq> {..length s}" using Plus.IH Plus.prems(1) by auto
    show "set (rmatch a ic s i) \<subseteq> set (rmatch a ic s i)" by simp
  qed
  then show ?case using Plus.prems(2) by (auto simp: Let_def)
next
  case (Opt a)
  then show ?case by (auto split: if_splits)
next
  case (Rep n a)
  have "set ((step_all (rmatch a ic s) ^^ n) [i]) \<subseteq> {..length s}"
  proof (rule funpow_step_le)
    show "\<And>x y. x \<le> length s \<Longrightarrow> y \<in> set (rmatch a ic s x) \<Longrightarrow> y \<le> length s"
      using Rep.IH by blast
    show "set [i] \<subseteq> {..length s}" using Rep.prems(1) by simp
  qed
  then show ?case using Rep.prems(2) by auto
next
  case (RepMin n a)
  have f: "\<And>x y. x \<le> length s \<Longrightarrow> y \<in> set (rmatch a ic s x) \<Longrightarrow> y \<le> length s"
    using RepMin.IH by blast
  have first: "set ((step_all (rmatch a ic s) ^^ n) [i]) \<subseteq> {..length s}"
  proof (rule funpow_step_le)
    show "\<And>x y. x \<le> length s \<Longrightarrow> y \<in> set (rmatch a ic s x) \<Longrightarrow> y \<le> length s" by (rule f)
    show "set [i] \<subseteq> {..length s}" using RepMin.prems(1) by simp
  qed
  have "set (star_close (rmatch a ic s) (length s) ((step_all (rmatch a ic s) ^^ n) [i])
                   ((step_all (rmatch a ic s) ^^ n) [i])) \<subseteq> {..length s}"
  proof (rule star_close_le)
    show "\<And>x y. x \<le> length s \<Longrightarrow> y \<in> set (rmatch a ic s x) \<Longrightarrow> y \<le> length s" by (rule f)
    show "set ((step_all (rmatch a ic s) ^^ n) [i]) \<subseteq> {..length s}" by (rule first)
    show "set ((step_all (rmatch a ic s) ^^ n) [i]) \<subseteq> set ((step_all (rmatch a ic s) ^^ n) [i])"
      by simp
  qed
  then show ?case using RepMin.prems(2) by (auto simp: Let_def)
qed (auto split: if_splits)

lemma star_close_set:
  assumes f: "\<And>i j. i \<le> N \<Longrightarrow> j \<in> set (f i) \<Longrightarrow> j \<le> N"
    and "distinct I" and "set I \<subseteq> {..N}"
  shows "set (star_close f N I I) = (round_rel f)\<^sup>* `` set I"
proof (cases "I = []")
  case True
  then show ?thesis by (simp add: star_close_Nil)
next
  case False
  let ?R = "star_close f N I I"
  have "1 \<le> length I" using False by (cases I) simp_all
  then have fuel: "Suc N \<le> N + length I" by simp
  have closed: "set I \<subseteq> set ?R \<and> (\<forall>i \<in> set ?R. set (f i) \<subseteq> set ?R)"
    using star_close_closed [of N f I I N] f assms(2,3) fuel by simp
  show ?thesis
  proof (intro equalityI subsetI)
    fix j assume "j \<in> set ?R"
    then show "j \<in> (round_rel f)\<^sup>* `` set I"
      using star_close_sound [of j f N I I] by auto
  next
    fix j assume "j \<in> (round_rel f)\<^sup>* `` set I"
    then obtain i where i: "i \<in> set I" "(i, j) \<in> (round_rel f)\<^sup>*" by auto
    from i(2) show "j \<in> set ?R"
    proof (induction rule: rtrancl_induct)
      case base
      then show ?case using closed i(1) by auto
    next
      case (step y z)
      then have "z \<in> set (f y)" by (simp add: round_rel_def)
      then show ?case using closed step.IH by auto
    qed
  qed
qed

lemma funpow_step_set: "set ((step_all f ^^ n) I) = (round_rel f ^^ n) `` set I"
proof (induction n)
  case 0
  then show ?case by auto
next
  case (Suc n)
  have "set ((step_all f ^^ Suc n) I) = round_rel f `` set ((step_all f ^^ n) I)"
    by (auto simp: step_all_set round_rel_def)
  also have "\<dots> = round_rel f `` ((round_rel f ^^ n) `` set I)" by (simp add: Suc)
  also have "\<dots> = (round_rel f ^^ Suc n) `` set I" by auto
  finally show ?case .
qed

text \<open>What a match is, expression by expression: \<open>rmatch r ic s i\<close> holds, without
  repetition, the ends of the matches of \<open>r\<close> that start at \<open>i\<close>. A sequence matches when
  its parts match one after the other, a star when its body matches any number of times
  in a row, and so on.\<close>

lemma rmatch_Seq_set:
  "set (rmatch (Seq a b) ic s i) = (\<Union>k \<in> set (rmatch a ic s i). set (rmatch b ic s k))"
  by (simp add: step_all_set)

lemma rmatch_Star_set:
  assumes "i \<le> length s"
  shows "set (rmatch (Star a) ic s i) = {j. (i, j) \<in> (round_rel (rmatch a ic s))\<^sup>*}"
proof -
  have "set (star_close (rmatch a ic s) (length s) [i] [i])
          = (round_rel (rmatch a ic s))\<^sup>* `` set [i]"
  proof (rule star_close_set)
    show "\<And>x y. x \<le> length s \<Longrightarrow> y \<in> set (rmatch a ic s x) \<Longrightarrow> y \<le> length s"
      by (rule rmatch_le)
    show "distinct [i]" by simp
    show "set [i] \<subseteq> {..length s}" using assms by simp
  qed
  then show ?thesis by auto
qed

lemma rmatch_Plus_set:
  assumes "i \<le> length s"
  shows "set (rmatch (Plus a) ic s i) = {j. (i, j) \<in> (round_rel (rmatch a ic s))\<^sup>+}"
proof -
  let ?f = "rmatch a ic s"
  have "set (star_close ?f (length s) (?f i) (?f i)) = (round_rel ?f)\<^sup>* `` set (?f i)"
  proof (rule star_close_set)
    show "\<And>x y. x \<le> length s \<Longrightarrow> y \<in> set (?f x) \<Longrightarrow> y \<le> length s" by (rule rmatch_le)
    show "distinct (?f i)" by (rule rmatch_distinct)
    show "set (?f i) \<subseteq> {..length s}" using assms rmatch_le by auto
  qed
  moreover have "(round_rel ?f)\<^sup>* `` set (?f i) = {j. (i, j) \<in> (round_rel ?f)\<^sup>+}"
  proof (intro equalityI subsetI)
    fix j assume "j \<in> (round_rel ?f)\<^sup>* `` set (?f i)"
    then obtain k where "k \<in> set (?f i)" "(k, j) \<in> (round_rel ?f)\<^sup>*" by auto
    then have "(i, k) \<in> round_rel ?f" "(k, j) \<in> (round_rel ?f)\<^sup>*" by (simp_all add: round_rel_def)
    then show "j \<in> {j. (i, j) \<in> (round_rel ?f)\<^sup>+}" by (simp add: rtrancl_into_trancl2)
  next
    fix j assume "j \<in> {j. (i, j) \<in> (round_rel ?f)\<^sup>+}"
    then obtain k where "(i, k) \<in> round_rel ?f" "(k, j) \<in> (round_rel ?f)\<^sup>*"
      by (auto dest: tranclD)
    then show "j \<in> (round_rel ?f)\<^sup>* `` set (?f i)" by (auto simp: round_rel_def)
  qed
  ultimately show ?thesis by (simp add: Let_def)
qed

lemma rmatch_Opt_set: "set (rmatch (Opt a) ic s i) = insert i (set (rmatch a ic s i))"
  by auto

lemma rmatch_Rep_set:
  "set (rmatch (Rep n a) ic s i) = {j. (i, j) \<in> round_rel (rmatch a ic s) ^^ n}"
  by (auto simp: funpow_step_set)

lemma rmatch_RepMin_set:
  assumes "i \<le> length s"
  shows "set (rmatch (RepMin n a) ic s i)
           = {j. \<exists>k. (i, k) \<in> round_rel (rmatch a ic s) ^^ n \<and> (k, j) \<in> (round_rel (rmatch a ic s))\<^sup>*}"
proof -
  let ?f = "rmatch a ic s"
  let ?I = "(step_all ?f ^^ n) [i]"
  have "set (star_close ?f (length s) ?I ?I) = (round_rel ?f)\<^sup>* `` set ?I"
  proof (rule star_close_set)
    show f: "\<And>x y. x \<le> length s \<Longrightarrow> y \<in> set (?f x) \<Longrightarrow> y \<le> length s" by (rule rmatch_le)
    show "distinct ?I" by (simp add: funpow_step_distinct)
    show "set ?I \<subseteq> {..length s}"
    proof (rule funpow_step_le)
      show "\<And>x y. x \<le> length s \<Longrightarrow> y \<in> set (?f x) \<Longrightarrow> y \<le> length s" by (rule rmatch_le)
      show "set [i] \<subseteq> {..length s}" using assms by simp
    qed
  qed
  then show ?thesis by (auto simp: Let_def funpow_step_set)
qed

section \<open>The file validator\<close>

lemma starts_with_iff: "starts_with s p \<longleftrightarrow> (\<exists>v. s = p @ v)"
  by (induction s p rule: starts_with.induct) auto

lemma py_in_iff: "py_in p s \<longleftrightarrow> (\<exists>u v. s = u @ p @ v)"
proof (induction s)
  case Nil
  then show ?case by auto
next
  case (Cons c cs)
  show ?case
  proof
    assume "py_in p (c # cs)"
    then consider "starts_with (c # cs) p" | "py_in p cs" by auto
    then show "\<exists>u v. c # cs = u @ p @ v"
    proof cases
      case 1
      then obtain v where "c # cs = p @ v" by (auto simp: starts_with_iff)
      then have "c # cs = [] @ p @ v" by simp
      then show ?thesis by blast
    next
      case 2
      then obtain u v where "cs = u @ p @ v" using Cons.IH by blast
      then have "c # cs = (c # u) @ p @ v" by simp
      then show ?thesis by blast
    qed
  next
    assume "\<exists>u v. c # cs = u @ p @ v"
    then obtain u v where uv: "c # cs = u @ p @ v" by blast
    show "py_in p (c # cs)"
    proof (cases u)
      case Nil
      with uv have "starts_with (c # cs) p" by (auto simp: starts_with_iff)
      then show ?thesis by simp
    next
      case (Cons a u')
      with uv have "cs = u' @ p @ v" by simp
      then have "py_in p cs" using Cons.IH by blast
      then show ?thesis by simp
    qed
  qed
qed

text \<open>A file name that contains \<^verbatim>\<open>..\<close>, a slash or two backslashes in a row is never
  valid, whatever its size, extension and type.\<close>

lemma validate_file_rejects_traversal:
  assumes "uf_name f = u @ t @ v" and "t = ''..'' \<or> t = ''/'' \<or> t = [bsl, bsl]"
  shows "\<not> valid (validate_file self f)"
proof -
  have "py_in t (uf_name f)" using assms(1) py_in_iff by blast
  then have "\<not> is_safe_filename (uf_name f)"
    using assms(2) by (auto simp: is_safe_filename_def)
  then show ?thesis by (simp add: validate_file_def Let_def)
qed

text \<open>
  Claim C5. A file whose size is greater than the maximum of the handler is invalid and
  the message is the one about the size; a file whose size is equal to the maximum is
  valid when the other four rules pass (allowed extension, allowed MIME type, safe file
  name, size not zero). The maximum of a new handler is 50 * 1024 * 1024 bytes.
\<close>

theorem validate_file_size_bound:
  "(uf_size f > MAX_FILE_SIZE self \<longrightarrow>
      validate_file self f
        = \<lparr> valid = False, message = SizeExceedsLimit (uf_size f) (MAX_FILE_SIZE self) \<rparr>)
   \<and> (uf_size f = MAX_FILE_SIZE self
        \<and> ''.'' @ py_lower (last (py_split CHR ''.'' (uf_name f))) \<in> set (ALLOWED_EXTENSIONS self)
        \<and> uf_type f \<in> set (ALLOWED_MIME_TYPES self)
        \<and> is_safe_filename (uf_name f)
        \<and> uf_size f \<noteq> 0 \<longrightarrow>
      validate_file self f = \<lparr> valid = True, message = ValidationSuccessful \<rparr>)"
  by (simp add: validate_file_def Let_def)

lemma report_name_ok:
  "''.'' @ py_lower (last (py_split CHR ''.'' ''report.XLSX''))
     \<in> set (ALLOWED_EXTENSIONS SecureFileHandler_init)
   \<and> is_safe_filename ''report.XLSX''"
  by (simp add: SecureFileHandler_init_def py_lower_def is_safe_filename_def safe_pattern_def
        re_eval char_of_eq_code)

theorem validate_file_size_bound_witness:
  "validate_file SecureFileHandler_init
      \<lparr> uf_name = ''report.XLSX'', uf_size = 52428801, uf_type = xlsx_mime \<rparr>
     = \<lparr> valid = False, message = SizeExceedsLimit 52428801 52428800 \<rparr>
   \<and> validate_file SecureFileHandler_init
      \<lparr> uf_name = ''report.XLSX'', uf_size = 52428800, uf_type = xlsx_mime \<rparr>
     = \<lparr> valid = True, message = ValidationSuccessful \<rparr>"
  using validate_file_size_bound
          [where f = "\<lparr> uf_name = ''report.XLSX'', uf_size = 52428801, uf_type = xlsx_mime \<rparr>"
             and self = SecureFileHandler_init]
        validate_file_size_bound
          [where f = "\<lparr> uf_name = ''report.XLSX'', uf_size = 52428800, uf_type = xlsx_mime \<rparr>"
             and self = SecureFileHandler_init]
        report_name_ok
  by (simp add: SecureFileHandler_init_def xlsx_mime_def)

text \<open>
  Claim C3. The claim asks that a file name with a backslash is always invalid. The check
  for directory traversal looks for two backslashes in a row, and the pattern of safe
  names admits the backslash, so the name \<^verbatim>\<open>a\b.xlsx\<close> (one backslash) of a file of one
  byte with the right MIME type is valid.
\<close>

theorem validate_file_accepts_backslash:
  "validate_file SecureFileHandler_init
      \<lparr> uf_name = ''a'' @ [bsl] @ ''b.xlsx'', uf_size = 1, uf_type = xlsx_mime \<rparr>
     = \<lparr> valid = True, message = ValidationSuccessful \<rparr>"
  by (simp add: validate_file_def SecureFileHandler_init_def xlsx_mime_def py_lower_def
        is_safe_filename_def safe_pattern_def re_eval char_of_eq_code)

section \<open>The scans\<close>


lemma astype_str_Inl_iff: "(\<exists>e. astype_str xs = Inl e) \<longleftrightarrow> Some Unprintable \<in> set xs"
  by (induction xs rule: astype_str.induct) (auto split: sum.splits)

lemma astype_str_Inr_set:
  "astype_str xs = Inr vs \<Longrightarrow> set vs = {v. Some (Printable v) \<in> set xs}"
  by (induction xs arbitrary: vs rule: astype_str.induct) (auto split: sum.splits)

lemma astype_str_cases:
  obtains (raises) e where "astype_str xs = Inl e" "Some Unprintable \<in> set xs"
  | (converts) vs where "astype_str xs = Inr vs" "set vs = {v. Some (Printable v) \<in> set xs}"
proof (cases "astype_str xs")
  case (Inl e)
  then show ?thesis using raises astype_str_Inl_iff by blast
next
  case (Inr vs)
  then show ?thesis using converts astype_str_Inr_set by blast
qed

lemma object_columns_member:
  "(col, xs) \<in> set (object_columns cs) \<longleftrightarrow> (col, Obj xs) \<in> set cs"
  by (induction cs rule: object_columns.induct) auto

lemma fold_max_ge: "fold (\<lambda>x m. max (length x) m) vs a > n \<longleftrightarrow> (a > n \<or> (\<exists>v \<in> set vs. length v > n))"
  by (induction vs arbitrary: a) auto

lemma exceeds_max_len: "exceeds (max_len vs) n \<longleftrightarrow> (\<exists>v \<in> set vs. length v > n)"
  by (cases vs) (auto simp: exceeds_def max_len_def fold_max_ge)

lemma contains_any_iff: "contains_any ic p vs \<longleftrightarrow> (\<exists>v \<in> set vs. re_search ic p v)"
  by (simp add: contains_any_def list_ex_iff)

text \<open>What the first loop of the upload scan returns.\<close>

lemma scan_content_Some_unsafe: "scan_content cs = Inr (Some r) \<Longrightarrow> \<not> safe r"
  by (induction cs rule: scan_content.induct) (auto split: sum.splits if_splits)

lemma scan_content_None_iff:
  "scan_content cs = Inr None \<longleftrightarrow>
     (\<forall>(col, xs) \<in> set cs. \<exists>vs. astype_str xs = Inr vs
         \<and> \<not> list_ex (\<lambda>pattern. contains_any True pattern vs) scan_patterns)"
  by (induction cs rule: scan_content.induct) (auto split: sum.splits if_splits)

lemma scan_sizes_Some_unsafe: "scan_sizes n cs = Inr (Some r) \<Longrightarrow> \<not> safe r"
  by (induction n cs rule: scan_sizes.induct) (auto split: sum.splits if_splits)

lemma scan_sizes_None_iff:
  "scan_sizes n cs = Inr None \<longleftrightarrow>
     (\<forall>(col, xs) \<in> set cs. \<exists>vs. astype_str xs = Inr vs \<and> \<not> exceeds (max_len vs) n)"
  by (induction n cs rule: scan_sizes.induct) (auto split: sum.splits if_splits)

lemma security_scan_safe_iff:
  "safe (security_scan df) \<longleftrightarrow>
     scan_content (object_columns (cols df)) = Inr None
     \<and> scan_sizes 10000 (object_columns (cols df)) = Inr None"
  by (auto simp: security_scan_def Let_def scan_content_Some_unsafe scan_sizes_Some_unsafe
           split: sum.splits option.splits)

lemma security_scan_match_unsafe:
  assumes "(col, Obj xs) \<in> set (cols df)" and "Some (Printable v) \<in> set xs"
    and "pattern \<in> set scan_patterns" and "re_search True pattern v"
  shows "\<not> safe (security_scan df)"
proof
  assume "safe (security_scan df)"
  then have "scan_content (object_columns (cols df)) = Inr None"
    by (simp add: security_scan_safe_iff)
  moreover have "(col, xs) \<in> set (object_columns (cols df))"
    using assms(1) by (simp add: object_columns_member)
  ultimately obtain vs where vs: "astype_str xs = Inr vs"
      "\<not> list_ex (\<lambda>pattern. contains_any True pattern vs) scan_patterns"
    by (auto simp: scan_content_None_iff)
  have "v \<in> set vs" using astype_str_Inr_set [OF vs(1)] assms(2) by simp
  then have "contains_any True pattern vs" using assms(4) by (auto simp: contains_any_iff)
  then show False using vs(2) assms(3) by (auto simp: list_ex_iff)
qed

lemma security_scan_raise_unsafe:
  assumes "(col, Obj xs) \<in> set (cols df)" and "astype_str xs = Inl e"
  shows "\<not> safe (security_scan df)"
proof
  assume "safe (security_scan df)"
  then have "scan_content (object_columns (cols df)) = Inr None"
    by (simp add: security_scan_safe_iff)
  moreover have "(col, xs) \<in> set (object_columns (cols df))"
    using assms(1) by (simp add: object_columns_member)
  ultimately show False using assms(2) by (auto simp: scan_content_None_iff)
qed

section \<open>The scan at upload time\<close>

lemma scan_patterns_non_alnum:
  "\<forall>p \<in> set scan_patterns. p = p_select_from \<or> has_non_alnum p"
  by (simp add: scan_patterns_def p_script_def p_javascript_def p_vbscript_def seqs_def lit_def
        is_alnum_def is_word_def code_def)

text \<open>
  Claim C1, as stated, fails in both directions. The list of patterns of the upload scan
  has no pattern for code execution (nor for command injection or path traversal): the
  cell \<^verbatim>\<open>eval(1)\<close> matches the pattern \<^verbatim>\<open>eval\s*\(\<close> of the catalogue of \<^verbatim>\<open>security.py\<close>,
  and the scan of a table with that cell returns safe. And the cell \<^verbatim>\<open>selectfrom\<close> is
  alphanumeric and has no PII shape, but matches \<^verbatim>\<open>SELECT.*FROM\<close>, so the scan of a table
  with that cell returns unsafe.
\<close>

theorem strict_scan_counterexample:
  "code_patterns ! 0 \<in> set load_suspicious_patterns
   \<and> re_search True (code_patterns ! 0) ''eval(1)''
   \<and> safe (security_scan (one_cell ''eval(1)''))
   \<and> list_all is_alnum ''selectfrom''
   \<and> \<not> list_ex (\<lambda>(pii_type, pattern). re_search False pattern ''selectfrom'') pii_patterns
   \<and> \<not> safe (security_scan (one_cell ''selectfrom''))"
proof -
  have "code_patterns ! 0 \<in> set load_suspicious_patterns"
    by (simp add: load_suspicious_patterns_def code_patterns_def)
  moreover have "re_search True (code_patterns ! 0) ''eval(1)''"
    by (simp add: code_patterns_def re_eval)
  moreover have "safe (security_scan (one_cell ''eval(1)''))"
    by (simp add: security_scan_def one_cell_def scan_patterns_def p_script_def p_javascript_def
          p_vbscript_def p_select_from_def max_len_def exceeds_def re_eval)
  moreover have "list_all is_alnum ''selectfrom''"
    by (simp add: is_alnum_def is_word_def code_def)
  moreover have "\<not> list_ex (\<lambda>(pii_type, pattern). re_search False pattern ''selectfrom'') pii_patterns"
    by (simp add: pii_patterns_def re_eval)
  moreover have "\<not> safe (security_scan (one_cell ''selectfrom''))"
    by (simp add: security_scan_def one_cell_def scan_patterns_def p_script_def p_javascript_def
          p_vbscript_def p_select_from_def max_len_def exceeds_def re_eval)
  ultimately show ?thesis by blast
qed

text \<open>
  Claim C1, amended. The upload scan returns unsafe whenever a non-null cell of a text
  column matches, without regard to case, one of \<^verbatim>\<open><script[^>]*>.*?</script>\<close>,
  \<^verbatim>\<open>javascript:\<close>, \<^verbatim>\<open>vbscript:\<close> or \<^verbatim>\<open>SELECT.*FROM\<close>. It returns safe for a table whose
  text cells are all alphanumeric strings of at most 10000 characters that do not match
  \<^verbatim>\<open>SELECT.*FROM\<close>; PII shapes play no part.
\<close>

theorem strict_scan_amended:
  "((col, Obj xs) \<in> set (cols df) \<and> Some (Printable v) \<in> set xs
      \<and> pattern \<in> {p_script, p_javascript, p_vbscript, p_select_from}
      \<and> re_search True pattern v
     \<longrightarrow> \<not> safe (security_scan df))
   \<and> ((\<forall>c ys y. (c, Obj ys) \<in> set (cols df) \<and> Some y \<in> set ys \<longrightarrow>
          (\<exists>w. y = Printable w \<and> list_all is_alnum w \<and> length w \<le> 10000
                \<and> \<not> re_search True p_select_from w))
     \<longrightarrow> safe (security_scan df))"
proof (intro conjI impI)
  assume a: "(col, Obj xs) \<in> set (cols df) \<and> Some (Printable v) \<in> set xs
      \<and> pattern \<in> {p_script, p_javascript, p_vbscript, p_select_from}
      \<and> re_search True pattern v"
  then have "pattern \<in> set scan_patterns" by (auto simp: scan_patterns_def)
  with a show "\<not> safe (security_scan df)" using security_scan_match_unsafe by blast
next
  assume a: "\<forall>c ys y. (c, Obj ys) \<in> set (cols df) \<and> Some y \<in> set ys \<longrightarrow>
          (\<exists>w. y = Printable w \<and> list_all is_alnum w \<and> length w \<le> 10000
                \<and> \<not> re_search True p_select_from w)"
  have col: "\<exists>vs. astype_str ys = Inr vs
               \<and> \<not> list_ex (\<lambda>pattern. contains_any True pattern vs) scan_patterns
               \<and> \<not> exceeds (max_len vs) 10000"
    if "(c, ys) \<in> set (object_columns (cols df))" for c ys
  proof -
    have mem: "(c, Obj ys) \<in> set (cols df)" using that by (simp add: object_columns_member)
    have "Some Unprintable \<notin> set ys" using a mem by blast
    then obtain vs where vs: "astype_str ys = Inr vs" "set vs = {w. Some (Printable w) \<in> set ys}"
      by (cases ys rule: astype_str_cases) auto
    have good: "list_all is_alnum w \<and> length w \<le> 10000 \<and> \<not> re_search True p_select_from w"
      if "w \<in> set vs" for w
      using a mem that vs(2) by blast
    have "\<not> re_search True p w" if "p \<in> set scan_patterns" "w \<in> set vs" for p w
    proof (cases "p = p_select_from")
      case True
      then show ?thesis using good [OF that(2)] by simp
    next
      case False
      then have "has_non_alnum p" using scan_patterns_non_alnum that(1) by blast
      then show ?thesis using alnum_no_match good [OF that(2)] by blast
    qed
    then have "\<not> list_ex (\<lambda>pattern. contains_any True pattern vs) scan_patterns"
      by (auto simp: list_ex_iff contains_any_iff)
    moreover have "\<not> exceeds (max_len vs) 10000"
      using good by (auto simp: exceeds_max_len not_less)
    ultimately show ?thesis using vs(1) by blast
  qed
  have "scan_content (object_columns (cols df)) = Inr None"
    unfolding scan_content_None_iff using col by blast
  moreover have "scan_sizes 10000 (object_columns (cols df)) = Inr None"
    unfolding scan_sizes_None_iff using col by blast
  ultimately show "safe (security_scan df)" by (simp add: security_scan_safe_iff)
qed

theorem strict_scan_amended_witness:
  "\<not> safe (security_scan scenario1) \<and> safe (security_scan names_table)"
proof -
  have "(''comment'', Obj [Some (Printable ''Normal comment''),
                           Some (Printable ''<script>alert(1)</script>'')]) \<in> set (cols scenario1)
        \<and> Some (Printable ''<script>alert(1)</script>'')
            \<in> set [Some (Printable ''Normal comment''), Some (Printable ''<script>alert(1)</script>'')]
        \<and> p_script \<in> {p_script, p_javascript, p_vbscript, p_select_from}
        \<and> re_search True p_script ''<script>alert(1)</script>''"
    by (simp add: scenario1_def p_script_def re_eval)
  then have 1: "\<not> safe (security_scan scenario1)"
    using strict_scan_amended [where df = scenario1 and pattern = p_script
        and v = "''<script>alert(1)</script>''" and col = "''comment''"
        and xs = "[Some (Printable ''Normal comment''), Some (Printable ''<script>alert(1)</script>'')]"]
    by blast
  have "\<forall>c ys y. (c, Obj ys) \<in> set (cols names_table) \<and> Some y \<in> set ys \<longrightarrow>
          (\<exists>w. y = Printable w \<and> list_all is_alnum w \<and> length w \<le> 10000
                \<and> \<not> re_search True p_select_from w)"
    by (auto simp: names_table_def is_alnum_def is_word_def code_def p_select_from_def re_eval)
  then have 2: "safe (security_scan names_table)"
    using strict_scan_amended [where df = names_table] by blast
  from 1 2 show ?thesis by simp
qed

section \<open>The scan of security.py and failures of a scan\<close>

lemma scan_columns_fields:
  "vr_safe (scan_columns self cs vr) = vr_safe vr
   \<and> errors (scan_columns self cs vr) = errors vr
   \<and> suspicious_columns (scan_columns self cs vr) = suspicious_columns vr @ flagged self cs
   \<and> warnings (scan_columns self cs vr) = warnings vr @ map SuspiciousColumn (flagged self cs)"
  by (induction self cs vr rule: scan_columns.induct) (auto simp: flagged_def)

lemma check_cell_sizes_fields:
  "check_cell_sizes self cs vr = (r, vr') \<Longrightarrow>
     vr_safe vr' = vr_safe vr \<and> errors vr' = errors vr
     \<and> suspicious_columns vr' = suspicious_columns vr
     \<and> (\<exists>ws. warnings vr' = warnings vr @ ws)"
proof (induction self cs vr arbitrary: r vr' rule: check_cell_sizes.induct)
  case (1 self vr)
  then show ?case by simp
next
  case (2 self col xs rest vr)
  show ?case
  proof (cases "astype_str xs")
    case (Inl e)
    with 2 show ?thesis by simp
  next
    case (Inr col_data)
    define vr1 where "vr1 = (case max_len col_data of
               None \<Rightarrow> vr
             | Some max_cell_size \<Rightarrow>
                 if max_cell_size > MAX_CELL_SIZE_CHARS (limits self)
                 then vr\<lparr> warnings := warnings vr @ [LargeCells col max_cell_size] \<rparr>
                 else vr)"
    have step: "check_cell_sizes self rest vr1 = (r, vr')"
      using "2.prems" Inr by (simp add: vr1_def)
    have f1: "vr_safe vr1 = vr_safe vr \<and> errors vr1 = errors vr
          \<and> suspicious_columns vr1 = suspicious_columns vr
          \<and> (\<exists>ws. warnings vr1 = warnings vr @ ws)"
      by (auto simp: vr1_def split: option.splits)
    have "vr_safe vr' = vr_safe vr1 \<and> errors vr' = errors vr1
          \<and> suspicious_columns vr' = suspicious_columns vr1
          \<and> (\<exists>ws. warnings vr' = warnings vr1 @ ws)"
      using "2.IH" [OF Inr step [unfolded vr1_def]] by (simp add: vr1_def)
    with f1 show ?thesis by auto
  qed
qed

lemma check_cell_sizes_raises:
  "(col, xs) \<in> set cs \<Longrightarrow> astype_str xs = Inl e \<Longrightarrow> \<exists>e'. fst (check_cell_sizes self cs vr) = Some e'"
  by (induction self cs vr rule: check_cell_sizes.induct) (auto split: sum.splits)

lemma check_cell_sizes_returns:
  "\<forall>(col, xs) \<in> set cs. \<exists>vs. astype_str xs = Inr vs \<Longrightarrow> fst (check_cell_sizes self cs vr) = None"
  by (induction self cs vr rule: check_cell_sizes.induct) (auto split: sum.splits)

lemma check_for_pii_returns:
  "\<forall>(col, xs) \<in> set cs. \<exists>vs. astype_str xs = Inr vs \<Longrightarrow> \<exists>ws. check_for_pii cs = Inr ws"
  by (induction cs rule: check_for_pii.induct) (auto split: sum.splits)

lemma on_exception_unsafe: "\<not> vr_safe (on_exception e vr)"
  by (simp add: on_exception_def)

lemma validate_data_content_alt:
  "validate_data_content self df =
     (case check_cell_sizes self (object_columns (cols df))
             (scan_columns self (object_columns (cols df)) (size_checks self df)) of
        (Some e, vr) \<Rightarrow> on_exception e vr
      | (None, vr4) \<Rightarrow>
          (case check_for_pii (object_columns (cols df)) of
             Inl e \<Rightarrow> on_exception e vr4
           | Inr pii_warnings \<Rightarrow> vr4\<lparr> warnings := warnings vr4 @ pii_warnings \<rparr>))"
  by (simp add: validate_data_content_def size_checks_def Let_def)

text \<open>
  Claim C4. When the conversion of a text column to strings raises, the scan at upload
  time returns unsafe, \<^verbatim>\<open>_scan_column_for_threats\<close> reports the column, and
  \<^verbatim>\<open>validate_data_content\<close> returns unsafe: the exception is caught in each of them (the
  functions return a result in every case) and the result is never safe.
\<close>

theorem scan_exception_fails_closed:
  assumes "(col, Obj xs) \<in> set (cols df)" and "astype_str xs = Inl e"
  shows "\<not> safe (security_scan df)
         \<and> scan_column_for_threats self xs
         \<and> \<not> vr_safe (validate_data_content self df)"
proof -
  have 1: "\<not> safe (security_scan df)"
    using assms by (rule security_scan_raise_unsafe)
  have 2: "scan_column_for_threats self xs"
    using assms(2) by (simp add: scan_column_for_threats_def)
  have mem: "(col, xs) \<in> set (object_columns (cols df))"
    using assms(1) by (simp add: object_columns_member)
  define vr3 where "vr3 = scan_columns self (object_columns (cols df)) (size_checks self df)"
  obtain e' where e': "fst (check_cell_sizes self (object_columns (cols df)) vr3) = Some e'"
    using check_cell_sizes_raises [OF mem assms(2)] by blast
  obtain vr' where "check_cell_sizes self (object_columns (cols df)) vr3 = (Some e', vr')"
    using e' by (cases "check_cell_sizes self (object_columns (cols df)) vr3") auto
  then have "validate_data_content self df = on_exception e' vr'"
    by (simp add: validate_data_content_alt vr3_def)
  then have 3: "\<not> vr_safe (validate_data_content self df)"
    by (simp add: on_exception_unsafe)
  from 1 2 3 show ?thesis by simp
qed


theorem scan_exception_fails_closed_witness:
  "\<not> safe (security_scan bad_table)
   \<and> scan_column_for_threats SecurityConfig_init [Some (Printable ''John''), Some Unprintable]
   \<and> \<not> vr_safe (validate_data_content SecurityConfig_init bad_table)"
proof -
  have "(''name'', Obj [Some (Printable ''John''), Some Unprintable]) \<in> set (cols bad_table)"
    by (simp add: bad_table_def)
  moreover have "astype_str [Some (Printable ''John''), Some Unprintable] = Inl Exception"
    by simp
  ultimately show ?thesis by (rule scan_exception_fails_closed)
qed

text \<open>
  Claim C10. With the limits of \<^verbatim>\<open>SecurityLimits\<close>, for a table of at most 1000000 rows and
  1000 columns whose text columns all convert to strings (no exception), the result of
  \<^verbatim>\<open>validate_data_content\<close> is safe and has no error; the columns that match a
  suspicious pattern make up \<open>suspicious_columns\<close> and each has its warning, and the PII
  warnings are among the warnings.
\<close>

theorem permissive_scan_stays_safe:
  assumes "limits self = SecurityLimits_init"
    and "nrows df \<le> 1000000" and "length (cols df) \<le> 1000"
    and "\<forall>(col, xs) \<in> set (object_columns (cols df)). \<exists>vs. astype_str xs = Inr vs"
  shows "vr_safe (validate_data_content self df)
         \<and> errors (validate_data_content self df) = []
         \<and> suspicious_columns (validate_data_content self df) = flagged self (object_columns (cols df))
         \<and> (\<forall>col \<in> set (flagged self (object_columns (cols df))).
               SuspiciousColumn col \<in> set (warnings (validate_data_content self df)))
         \<and> (\<exists>pii_warnings. check_for_pii (object_columns (cols df)) = Inr pii_warnings
               \<and> set pii_warnings \<subseteq> set (warnings (validate_data_content self df)))"
proof -
  let ?cs = "object_columns (cols df)"
  define vr2 where "vr2 = size_checks self df"
  define vr3 where "vr3 = scan_columns self ?cs vr2"
  have vr2: "vr2 = \<lparr> vr_safe = True, warnings = [], errors = [], suspicious_columns = [] \<rparr>"
    using assms(1,2,3) by (simp add: vr2_def size_checks_def SecurityLimits_init_def)
  have vr3: "vr_safe vr3" "errors vr3 = []" "suspicious_columns vr3 = flagged self ?cs"
    "warnings vr3 = map SuspiciousColumn (flagged self ?cs)"
    using scan_columns_fields [of self ?cs vr2] by (simp_all add: vr3_def vr2)
  obtain vr4 where vr4: "check_cell_sizes self ?cs vr3 = (None, vr4)"
    using check_cell_sizes_returns [OF assms(4), of self vr3]
    by (cases "check_cell_sizes self ?cs vr3") auto
  obtain ws where ws: "vr_safe vr4" "errors vr4 = []" "suspicious_columns vr4 = flagged self ?cs"
    "warnings vr4 = map SuspiciousColumn (flagged self ?cs) @ ws"
    using check_cell_sizes_fields [OF vr4] vr3 by auto
  obtain pii_warnings where pii: "check_for_pii ?cs = Inr pii_warnings"
    using check_for_pii_returns [OF assms(4)] by blast
  have "validate_data_content self df = vr4\<lparr> warnings := warnings vr4 @ pii_warnings \<rparr>"
    using vr4 pii by (simp add: validate_data_content_alt vr3_def vr2_def)
  then show ?thesis using ws pii by auto
qed

lemma pii_cell_scan:
  "flagged SecurityConfig_init (object_columns (cols (one_cell pii_cell))) = [''comment'']
   \<and> check_for_pii (object_columns (cols (one_cell pii_cell))) = Inr [MayContainPII ''comment'' ''email'']"
  by (simp add: flagged_def one_cell_def pii_cell_def scan_column_for_threats_def
        SecurityConfig_init_def load_suspicious_patterns_def xss_patterns_def sql_patterns_def
        command_patterns_def path_patterns_def code_patterns_def p_script_def p_javascript_def
        p_vbscript_def pii_patterns_def re_eval)

theorem permissive_scan_stays_safe_witness:
  "vr_safe (validate_data_content SecurityConfig_init (one_cell pii_cell))
   \<and> errors (validate_data_content SecurityConfig_init (one_cell pii_cell)) = []
   \<and> suspicious_columns (validate_data_content SecurityConfig_init (one_cell pii_cell)) = [''comment'']
   \<and> SuspiciousColumn ''comment''
        \<in> set (warnings (validate_data_content SecurityConfig_init (one_cell pii_cell)))
   \<and> MayContainPII ''comment'' ''email''
        \<in> set (warnings (validate_data_content SecurityConfig_init (one_cell pii_cell)))"
proof -
  have "limits SecurityConfig_init = SecurityLimits_init"
    by (simp add: SecurityConfig_init_def)
  moreover have "nrows (one_cell pii_cell) \<le> 1000000" "length (cols (one_cell pii_cell)) \<le> 1000"
    by (simp_all add: one_cell_def)
  moreover have "\<forall>(col, xs) \<in> set (object_columns (cols (one_cell pii_cell))).
                   \<exists>vs. astype_str xs = Inr vs"
    by (simp add: one_cell_def)
  ultimately show ?thesis
    using permissive_scan_stays_safe [of SecurityConfig_init "one_cell pii_cell"] pii_cell_scan
    by auto
qed

section \<open>The rate limiter\<close>

lemma validate_api_usage_result:
  "fst (validate_api_usage self u t) =
     (if count_at self u (minute_of t) \<ge> MAX_API_CALLS_PER_MINUTE (limits self)
      then RateLimited (60 - py_mod t 60)
      else Allowed (MAX_API_CALLS_PER_MINUTE (limits self) - (count_at self u (minute_of t) + 1)))"
  by (simp add: validate_api_usage_def count_at_def Let_def split: option.splits)

lemma validate_api_usage_limits:
  "limits (snd (validate_api_usage self u t)) = limits self"
  by (simp add: validate_api_usage_def Let_def)

lemma validate_api_usage_count:
  "count_at (snd (validate_api_usage self u t)) u (minute_of t) =
     (if count_at self u (minute_of t) \<ge> MAX_API_CALLS_PER_MINUTE (limits self)
      then count_at self u (minute_of t)
      else count_at self u (minute_of t) + 1)"
  by (simp add: validate_api_usage_def count_at_def Let_def split: option.splits)

lemma validate_api_usage_keys:
  "keys_of (snd (validate_api_usage self u t)) u
     \<subseteq> {k \<in> keys_of self u. minute_of t - 1 \<le> k} \<union> {minute_of t}"
  by (auto simp: validate_api_usage_def keys_of_def Let_def split: option.splits if_splits)

lemma validate_api_usage_other:
  "v \<noteq> u \<Longrightarrow> api_call_tracker (snd (validate_api_usage self u t)) v = api_call_tracker self v"
  by (simp add: validate_api_usage_def Let_def)

lemma validate_api_usage_tracked:
  "api_call_tracker (snd (validate_api_usage self u t)) u \<noteq> None"
  by (simp add: validate_api_usage_def Let_def)

lemma count_at_no_key: "m \<notin> keys_of self u \<Longrightarrow> count_at self u m = 0"
  by (auto simp: count_at_def keys_of_def split: option.splits)

lemma run_calls_Cons:
  "fst (run_calls self u (t # ts))
     = fst (validate_api_usage self u t) # fst (run_calls (snd (validate_api_usage self u t)) u ts)"
  "snd (run_calls self u (t # ts)) = snd (run_calls (snd (validate_api_usage self u t)) u ts)"
  by (simp_all split: prod.splits)

lemma run_calls_append:
  "fst (run_calls self u (ts @ ts')) = fst (run_calls self u ts) @ fst (run_calls (snd (run_calls self u ts)) u ts')"
  by (induction ts arbitrary: self) (simp_all add: run_calls_Cons del: run_calls.simps(2))

lemma run_calls_limits: "limits (snd (run_calls self u ts)) = limits self"
  by (induction ts arbitrary: self)
     (simp_all add: run_calls_Cons validate_api_usage_limits del: run_calls.simps(2))

lemma run_calls_keys:
  "\<forall>t \<in> set ts. minute_of t = m \<Longrightarrow> keys_of (snd (run_calls self u ts)) u \<subseteq> keys_of self u \<union> {m}"
proof (induction ts arbitrary: self)
  case Nil
  then show ?case by auto
next
  case (Cons t ts)
  have "keys_of (snd (validate_api_usage self u t)) u \<subseteq> keys_of self u \<union> {m}"
    using validate_api_usage_keys [of self u t] Cons.prems by auto
  moreover have "keys_of (snd (run_calls (snd (validate_api_usage self u t)) u ts)) u
                   \<subseteq> keys_of (snd (validate_api_usage self u t)) u \<union> {m}"
    using Cons by simp
  ultimately show ?case by (auto simp: run_calls_Cons simp del: run_calls.simps(2))
qed

lemma enumerate_shift: "map (\<lambda>(k, t). f (Suc k) t) (enumerate n ts) = map (\<lambda>(k, t). f k t) (enumerate (Suc n) ts)"
  by (induction ts arbitrary: n) auto

lemma run_calls_same_minute:
  assumes "\<forall>t \<in> set ts. minute_of t = m" and "count_at self u m = c"
  shows "fst (run_calls self u ts)
           = map (\<lambda>(k, t). if c + int k < MAX_API_CALLS_PER_MINUTE (limits self)
                             then Allowed (MAX_API_CALLS_PER_MINUTE (limits self) - (c + int k + 1))
                             else RateLimited (60 - py_mod t 60))
                 (enumerate 0 ts)"
  using assms
proof (induction ts arbitrary: self c)
  case Nil
  then show ?case by simp
next
  case (Cons t ts)
  let ?L = "MAX_API_CALLS_PER_MINUTE (limits self)"
  let ?self' = "snd (validate_api_usage self u t)"
  have mt: "minute_of t = m" using Cons.prems(1) by simp
  define c' where "c' = (if c \<ge> ?L then c else c + 1)"
  have cnt: "count_at ?self' u m = c'"
    using validate_api_usage_count [of self u t] mt Cons.prems(2) by (simp add: c'_def)
  have lim: "limits ?self' = limits self" by (rule validate_api_usage_limits)
  have IH: "fst (run_calls ?self' u ts)
           = map (\<lambda>(k, t). if c' + int k < ?L
                             then Allowed (?L - (c' + int k + 1))
                             else RateLimited (60 - py_mod t 60))
                 (enumerate 0 ts)"
    using Cons.IH [of ?self' c'] Cons.prems(1) cnt unfolding lim by simp
  have shift: "map (\<lambda>(k, t). if c' + int k < ?L
                             then Allowed (?L - (c' + int k + 1))
                             else RateLimited (60 - py_mod t 60)) (enumerate 0 ts)
        = map (\<lambda>(k, t). if c + int k < ?L
                             then Allowed (?L - (c + int k + 1))
                             else RateLimited (60 - py_mod t 60)) (enumerate (Suc 0) ts)"
  proof -
    have "(if c' + int k < ?L then Allowed (?L - (c' + int k + 1)) else RateLimited r)
          = (if c + int (Suc k) < ?L then Allowed (?L - (c + int (Suc k) + 1)) else RateLimited r)"
      for k r
      by (auto simp: c'_def)
    then have "map (\<lambda>(k, t). if c' + int k < ?L
                             then Allowed (?L - (c' + int k + 1))
                             else RateLimited (60 - py_mod t 60)) (enumerate 0 ts)
       = map (\<lambda>(k, t). if c + int (Suc k) < ?L
                             then Allowed (?L - (c + int (Suc k) + 1))
                             else RateLimited (60 - py_mod t 60)) (enumerate 0 ts)"
      by simp
    also have "\<dots> = map (\<lambda>(k, t). if c + int k < ?L
                             then Allowed (?L - (c + int k + 1))
                             else RateLimited (60 - py_mod t 60)) (enumerate (Suc 0) ts)"
      using enumerate_shift [of "\<lambda>k t. if c + int k < ?L
                             then Allowed (?L - (c + int k + 1))
                             else RateLimited (60 - py_mod t 60)" 0 ts] by simp
    finally show ?thesis .
  qed
  have head: "fst (validate_api_usage self u t)
        = (if c + int 0 < ?L then Allowed (?L - (c + int 0 + 1)) else RateLimited (60 - py_mod t 60))"
    using validate_api_usage_result [of self u t] mt Cons.prems(2) by auto
  show ?case
    using head IH shift by (simp add: run_calls_Cons del: run_calls.simps(2))
qed


lemma quota_result_eq:
  "map (quota_result L) (enumerate 0 ts)
     = map (\<lambda>(k, t). if 0 + int k < L then Allowed (L - (0 + int k + 1))
                       else RateLimited (60 - py_mod t 60)) (enumerate 0 ts)"
  by (rule map_cong) (auto simp: quota_result_def)

text \<open>
  Claim C2. For an identity without an entry in the tracker, calls at times \<open>ts\<close>, all in
  one minute \<open>m\<close>, followed by calls at times \<open>ts'\<close>, all in a later minute \<open>m'\<close>, return:
  in each of the two minutes, call number \<open>k\<close> (from 0) is admitted with
  \<open>remaining_calls = limit - (k + 1)\<close> when \<open>k < limit\<close>, and denied with
  \<open>retry_after = 60 - (t mod 60)\<close> otherwise, \<open>limit\<close> being \<open>MAX_API_CALLS_PER_MINUTE\<close> (10
  in a new \<open>SecurityConfig\<close>). So exactly the first \<open>limit\<close> calls of the first minute are
  admitted, the next is denied, and the later minute starts with the full quota.
\<close>

theorem rate_limiter_quota:
  assumes "api_call_tracker self user_id = None"
    and "\<forall>t \<in> set ts. minute_of t = m"
    and "\<forall>t \<in> set ts'. minute_of t = m'"
    and "m < m'"
  shows "fst (run_calls self user_id (ts @ ts'))
           = map (quota_result (MAX_API_CALLS_PER_MINUTE (limits self))) (enumerate 0 ts)
             @ map (quota_result (MAX_API_CALLS_PER_MINUTE (limits self))) (enumerate 0 ts')"
proof -
  let ?L = "MAX_API_CALLS_PER_MINUTE (limits self)"
  let ?self1 = "snd (run_calls self user_id ts)"
  have k0: "keys_of self user_id = {}" using assms(1) by (simp add: keys_of_def)
  have c0: "count_at self user_id m = 0" using assms(1) by (simp add: count_at_def)
  have first: "fst (run_calls self user_id ts) = map (quota_result ?L) (enumerate 0 ts)"
    using run_calls_same_minute [OF assms(2) c0] by (simp add: quota_result_eq)
  have "keys_of ?self1 user_id \<subseteq> {m}"
    using run_calls_keys [OF assms(2), of self user_id] k0 by simp
  then have "m' \<notin> keys_of ?self1 user_id" using assms(4) by auto
  then have c1: "count_at ?self1 user_id m' = 0" by (rule count_at_no_key)
  have "fst (run_calls ?self1 user_id ts') = map (quota_result ?L) (enumerate 0 ts')"
    using run_calls_same_minute [OF assms(3) c1] unfolding run_calls_limits
    by (simp add: quota_result_eq)
  with first show ?thesis by (simp add: run_calls_append)
qed

lemma minute_of_mono: "t \<le> t' \<Longrightarrow> minute_of t \<le> minute_of t'"
  unfolding minute_of_def by (intro floor_mono divide_right_mono) simp_all

lemma run_log_append: "run_log self (calls @ calls') = run_log (run_log self calls) calls'"
  by (induction self calls rule: run_log.induct) simp_all

lemma keys_of_other:
  "v \<noteq> u \<Longrightarrow> keys_of (snd (validate_api_usage self u t)) v = keys_of self v"
  by (simp add: keys_of_def validate_api_usage_other)

lemma run_log_keys_le:
  assumes "\<forall>v. \<forall>k \<in> keys_of self v. k \<le> M" and "\<forall>c \<in> set calls. minute_of (snd c) \<le> M"
  shows "\<forall>v. \<forall>k \<in> keys_of (run_log self calls) v. k \<le> M"
  using assms
proof (induction self calls rule: run_log.induct)
  case (1 self)
  then show ?case by simp
next
  case (2 self u t calls)
  have "\<forall>v. \<forall>k \<in> keys_of (snd (validate_api_usage self u t)) v. k \<le> M"
  proof (intro allI ballI)
    fix v k assume k: "k \<in> keys_of (snd (validate_api_usage self u t)) v"
    show "k \<le> M"
    proof (cases "v = u")
      case True
      then have "k \<in> keys_of self u \<or> k = minute_of t"
        using k validate_api_usage_keys [of self u t] by auto
      then show ?thesis using "2.prems" by auto
    next
      case False
      then show ?thesis using k "2.prems"(1) by (simp add: keys_of_other)
    qed
  qed
  then show ?case using "2.IH" "2.prems"(2) by simp
qed

text \<open>
  Claim C9, amended. After a call for an identity at time \<open>t\<close>, from any state, the identity
  has a counter map and each of its keys is at least the minute of \<open>t\<close> minus one. When the
  calls start from a state with an empty tracker and their times do not decrease (the
  clock does not run backwards), the keys of the identity after its call are among the
  minute of \<open>t\<close> and the one before: at most two buckets.
\<close>

theorem tracker_keeps_two_buckets:
  "(\<exists>tr. api_call_tracker (snd (validate_api_usage self user_id t)) user_id = Some tr
          \<and> (\<forall>k \<in> dom tr. minute_of t - 1 \<le> k))
   \<and> (api_call_tracker self0 = Map.empty \<and> sorted (map snd (calls @ [(user_id, t)])) \<longrightarrow>
        (\<exists>tr. api_call_tracker (run_log self0 (calls @ [(user_id, t)])) user_id = Some tr
          \<and> dom tr \<subseteq> {minute_of t - 1, minute_of t} \<and> card (dom tr) \<le> 2))"
proof (intro conjI impI)
  obtain tr where tr: "api_call_tracker (snd (validate_api_usage self user_id t)) user_id = Some tr"
    using validate_api_usage_tracked [of self user_id t] by auto
  then have "dom tr = keys_of (snd (validate_api_usage self user_id t)) user_id"
    by (simp add: keys_of_def)
  then have "\<forall>k \<in> dom tr. minute_of t - 1 \<le> k"
    using validate_api_usage_keys [of self user_id t] by auto
  with tr show "\<exists>tr. api_call_tracker (snd (validate_api_usage self user_id t)) user_id = Some tr
          \<and> (\<forall>k \<in> dom tr. minute_of t - 1 \<le> k)" by blast
next
  assume a: "api_call_tracker self0 = Map.empty \<and> sorted (map snd (calls @ [(user_id, t)]))"
  let ?before = "run_log self0 calls"
  let ?after = "snd (validate_api_usage ?before user_id t)"
  have "\<forall>c \<in> set calls. snd c \<le> t" using a by (auto simp: sorted_append)
  then have early: "\<forall>c \<in> set calls. minute_of (snd c) \<le> minute_of t"
    by (simp add: minute_of_mono)
  have "\<forall>v. \<forall>k \<in> keys_of self0 v. k \<le> minute_of t" using a by (simp add: keys_of_def)
  then have le: "\<forall>k \<in> keys_of ?before user_id. k \<le> minute_of t"
    using run_log_keys_le [OF _ early] by blast
  have after: "run_log self0 (calls @ [(user_id, t)]) = ?after"
    by (simp add: run_log_append)
  obtain tr where tr: "api_call_tracker ?after user_id = Some tr"
    using validate_api_usage_tracked [of ?before user_id t] by auto
  then have dom: "dom tr = keys_of ?after user_id" by (simp add: keys_of_def)
  have sub: "dom tr \<subseteq> {minute_of t - 1, minute_of t}"
  proof
    fix x assume "x \<in> dom tr"
    then have "x = minute_of t \<or> (x \<in> keys_of ?before user_id \<and> minute_of t - 1 \<le> x)"
      using dom validate_api_usage_keys [of ?before user_id t] by auto
    then have "x = minute_of t \<or> (minute_of t - 1 \<le> x \<and> x \<le> minute_of t)"
      using le by auto
    then have "x = minute_of t \<or> x = minute_of t - 1" by arith
    then show "x \<in> {minute_of t - 1, minute_of t}" by auto
  qed
  have "card (dom tr) \<le> card {minute_of t - 1, minute_of t}"
    using sub by (intro card_mono) simp_all
  also have "\<dots> \<le> 2" by (simp add: card_insert_if)
  finally have "card (dom tr) \<le> 2" .
  with tr sub after
  show "\<exists>tr. api_call_tracker (run_log self0 (calls @ [(user_id, t)])) user_id = Some tr
          \<and> dom tr \<subseteq> {minute_of t - 1, minute_of t} \<and> card (dom tr) \<le> 2"
    by simp
qed


lemma floor_numeral_div: "\<lfloor>numeral a / numeral b :: rat\<rfloor> = numeral a div numeral b"
  by (metis floor_divide_of_int_eq of_int_numeral)

lemma minute_of_numeral: "minute_of (numeral k) = numeral k div 60"
  unfolding minute_of_def by (rule floor_numeral_div)

lemma py_mod_numeral:
  "py_mod (numeral a) (numeral b) = numeral a - numeral b * of_int (numeral a div numeral b)"
  unfolding py_mod_def floor_numeral_div by (rule refl)

theorem rate_limiter_quota_witness:
  "fst (run_calls SecurityConfig_init ''alice'' (burst @ [120, 121]))
     = [Allowed 9, Allowed 8, Allowed 7, Allowed 6, Allowed 5, Allowed 4, Allowed 3, Allowed 2,
        Allowed 1, Allowed 0, RateLimited 50, Allowed 9, Allowed 8]"
proof -
  have "api_call_tracker SecurityConfig_init ''alice'' = None"
    by (simp add: SecurityConfig_init_def)
  moreover have "\<forall>t \<in> set burst. minute_of t = 1"
    by (simp add: burst_def minute_of_numeral)
  moreover have "\<forall>t \<in> set [120, 121 :: rat]. minute_of t = 2"
    by (simp add: minute_of_numeral)
  moreover have "(1::int) < 2" by simp
  ultimately have "fst (run_calls SecurityConfig_init ''alice'' (burst @ [120, 121]))
           = map (quota_result (MAX_API_CALLS_PER_MINUTE (limits SecurityConfig_init))) (enumerate 0 burst)
             @ map (quota_result (MAX_API_CALLS_PER_MINUTE (limits SecurityConfig_init)))
                 (enumerate 0 [120, 121])"
    by (rule rate_limiter_quota)
  then show ?thesis
    by (simp add: SecurityConfig_init_def SecurityLimits_init_def burst_def quota_result_def
          py_mod_numeral)
qed

theorem tracker_keeps_two_buckets_witness:
  "(\<exists>tr. api_call_tracker (snd (validate_api_usage SecurityConfig_init ''alice'' 130)) ''alice'' = Some tr
          \<and> (\<forall>k \<in> dom tr. 1 \<le> k))
   \<and> sorted (map snd (call_log @ [(''alice'', 130)]))
   \<and> (\<exists>tr. api_call_tracker (run_log SecurityConfig_init (call_log @ [(''alice'', 130)])) ''alice''
               = Some tr
          \<and> dom tr \<subseteq> {1, 2} \<and> card (dom tr) \<le> 2)"
proof -
  have m: "minute_of 130 = 2" by (simp add: minute_of_numeral)
  have h: "api_call_tracker SecurityConfig_init = Map.empty
           \<and> sorted (map snd (call_log @ [(''alice'', 130)]))"
    by (simp add: SecurityConfig_init_def call_log_def)
  show ?thesis
    using tracker_keeps_two_buckets [of SecurityConfig_init "''alice''" 130 SecurityConfig_init call_log]
      h m by simp
qed

text \<open>
  Claim C9, as stated, fails in its second part: a call deletes only the keys below the
  current minute minus one, so a key above the current minute stays. After calls of one
  identity at the times 200, 130 and 10 (minutes 3, 2 and 0) the counter map of the
  identity has the three keys 0, 2 and 3, and 2 and 3 are neither the minute of the last
  call nor the one before.
\<close>

theorem tracker_three_buckets_counterexample:
  "minute_of 10 = 0
   \<and> keys_of (run_log SecurityConfig_init backwards_log) ''alice'' = {0, 2, 3}
   \<and> card (keys_of (run_log SecurityConfig_init backwards_log) ''alice'') = 3"
proof -
  have k: "keys_of (run_log SecurityConfig_init backwards_log) ''alice'' = {0, 2, 3}"
    by (auto simp: keys_of_def backwards_log_def validate_api_usage_def SecurityConfig_init_def
          SecurityLimits_init_def minute_of_numeral Let_def dom_def split: if_splits)
  have "minute_of 10 = 0" by (simp add: minute_of_numeral)
  moreover have "card {0, 2, 3 :: int} = 3" by simp
  ultimately show ?thesis using k by simp
qed

section \<open>The quality report\<close>

lemma set_dropna: "set (dropna xs) = {v. Some v \<in> set xs}"
  by (induction xs) (auto simp: dropna_def split: option.splits)

lemma sort_constant_nth:
  assumes "set vs \<subseteq> {v}" and "i < length vs"
  shows "sort vs ! i = (v :: rat)"
proof -
  have "sort vs ! i \<in> set (sort vs)" using assms(2) by (intro nth_mem) simp
  then show ?thesis using assms(1) by auto
qed

lemma quantile_constant:
  assumes "\<forall>x \<in> set xs. x = None \<or> x = Some v" and "0 \<le> q" and "q \<le> 1"
  shows "quantile xs q = (if dropna xs = [] then None else Some v)"
proof (cases "dropna xs = []")
  case True
  then show ?thesis by (simp add: quantile_def)
next
  case False
  let ?vs = "sort (dropna xs)"
  let ?n = "length (dropna xs)"
  let ?h = "of_nat (?n - 1) * q :: rat"
  have sub: "set (dropna xs) \<subseteq> {v}" using assms(1) by (auto simp: set_dropna)
  have n: "0 < ?n" using False by simp
  have h0: "0 \<le> ?h" using assms(2) by simp
  have h1: "?h \<le> of_nat (?n - 1)" using assms(3) by (simp add: mult_left_le)
  have "\<lfloor>?h\<rfloor> \<le> int (?n - 1)" using h1 by (simp add: floor_le_iff)
  then have "nat \<lfloor>?h\<rfloor> \<le> ?n - 1" by (simp add: nat_le_iff)
  then have lo: "nat \<lfloor>?h\<rfloor> < ?n" using n by linarith
  have "\<lceil>?h\<rceil> \<le> int (?n - 1)" using h1 by (simp add: ceiling_le_iff)
  then have "nat \<lceil>?h\<rceil> \<le> ?n - 1" by (simp add: nat_le_iff)
  then have hi: "nat \<lceil>?h\<rceil> < ?n" using n by linarith
  have "?vs ! nat \<lfloor>?h\<rfloor> = v" "?vs ! nat \<lceil>?h\<rceil> = v"
    using sort_constant_nth [OF sub lo] sort_constant_nth [OF sub hi] by simp_all
  moreover have "sort (dropna xs) \<noteq> []"
    using False by (metis length_0_conv length_sort)
  ultimately show ?thesis using False by (simp add: quantile_def Let_def)
qed

lemma outlier_mask_constant:
  assumes "\<forall>x \<in> set xs. x = None \<or> x = Some v"
  shows "outlier_mask xs = map (\<lambda>x. False) xs"
proof -
  have q: "quantile xs (1 / 4) = (if dropna xs = [] then None else Some v)"
    "quantile xs (3 / 4) = (if dropna xs = [] then None else Some v)"
    using quantile_constant [OF assms] by simp_all
  show ?thesis
  proof (cases "dropna xs = []")
    case True
    then show ?thesis
      using q by (auto simp: outlier_mask_def nan_lift_def nan_less_def Let_def split: option.splits)
  next
    case False
    have "nan_less x (Some v) = False \<and> nan_less (Some v) x = False" if "x \<in> set xs" for x
      using assms that by (auto simp: nan_less_def)
    then show ?thesis using q False by (simp add: outlier_mask_def nan_lift_def Let_def)
  qed
qed

lemma filter_zip_False: "filter (\<lambda>(x, b). b) (zip xs (map (\<lambda>x. False) xs)) = []"
  by (induction xs) auto

lemma sum_list_all_zero: "(\<And>x. x \<in> set xs \<Longrightarrow> f x = (0::nat)) \<Longrightarrow> sum_list (map f xs) = 0"
  by (induction xs) auto

lemma potential_outliers_report:
  "generate_quality_report df = Inr report \<Longrightarrow>
     potential_outliers report
       = sum_list (map (\<lambda>(col, xs). outlier_rows xs) (numeric_columns (cols df)))"
  unfolding generate_quality_report_def Let_def by (auto split: sum.splits)

text \<open>
  Claim C7. For a numeric column whose values are all equal (null cells apart), the IQR
  rule selects no row in the quality report and the \<open>outlier_count\<close> of the column's
  profile is 0; so the report of a table whose numeric columns are all of this kind has
  \<open>potential_outliers = 0\<close>.
\<close>

theorem constant_column_no_outliers:
  "((\<forall>x \<in> set xs. x = None \<or> x = Some v) \<longrightarrow> outlier_rows xs = 0 \<and> outlier_count xs = 0)
   \<and> ((\<forall>(col, ys) \<in> set (numeric_columns (cols df)). \<exists>w. \<forall>y \<in> set ys. y = None \<or> y = Some w)
        \<and> generate_quality_report df = Inr report
       \<longrightarrow> potential_outliers report = 0)"
proof (rule conjI; rule impI)
  assume "\<forall>x \<in> set xs. x = None \<or> x = Some v"
  then have "outlier_mask xs = map (\<lambda>x. False) xs" by (rule outlier_mask_constant)
  then show "outlier_rows xs = 0 \<and> outlier_count xs = 0"
    by (simp add: outlier_rows_def outlier_count_def filter_zip_False)
next
  assume a: "(\<forall>(col, ys) \<in> set (numeric_columns (cols df)). \<exists>w. \<forall>y \<in> set ys. y = None \<or> y = Some w)
        \<and> generate_quality_report df = Inr report"
  then have all: "\<forall>(col, ys) \<in> set (numeric_columns (cols df)). \<exists>w. \<forall>y \<in> set ys. y = None \<or> y = Some w"
    and rep: "generate_quality_report df = Inr report"
    by (rule conjunct1, rule conjunct2)
  have "(case c of (col, ys) \<Rightarrow> outlier_rows ys) = 0" if "c \<in> set (numeric_columns (cols df))" for c
  proof -
    obtain col ys where c: "c = (col, ys)" by (cases c)
    have "case c of (col, ys) \<Rightarrow> \<exists>w. \<forall>y \<in> set ys. y = None \<or> y = Some w"
      using all that by (rule bspec)
    then obtain w where "\<forall>y \<in> set ys. y = None \<or> y = Some w" unfolding c by auto
    then have "outlier_mask ys = map (\<lambda>x. False) ys" by (rule outlier_mask_constant)
    then show ?thesis unfolding c by (simp add: outlier_rows_def)
  qed
  then have "sum_list (map (\<lambda>(col, xs). outlier_rows xs) (numeric_columns (cols df))) = 0"
    by (rule sum_list_all_zero)
  then show "potential_outliers report = 0"
    using potential_outliers_report [OF rep] by simp
qed


theorem constant_column_no_outliers_witness:
  "outlier_rows [Some 5, None, Some 5] = 0 \<and> outlier_count [Some 5, None, Some 5] = 0
   \<and> (\<exists>report. generate_quality_report flat_table = Inr report \<and> potential_outliers report = 0)"
proof -
  have 1: "\<forall>x \<in> set [Some (5::rat), None, Some 5]. x = None \<or> x = Some 5" by simp
  have 2: "\<forall>(col, ys) \<in> set (numeric_columns (cols flat_table)).
             \<exists>w. \<forall>y \<in> set ys. y = None \<or> y = Some w"
    by (auto simp: flat_table_def)
  obtain report where 3: "generate_quality_report flat_table = Inr report"
    by (simp add: generate_quality_report_def flat_table_def uniqueness_ratio_def)
  show ?thesis
    using constant_column_no_outliers [of "[Some 5, None, Some 5]" 5 flat_table report] 1 2 3
    by blast
qed

text \<open>
  Claim C6 asks for a percentage between 0 and 100 for every table. For the table without
  rows and columns (an empty sheet) the report divides 0 by 0: the percentage of missing
  data is NaN. For a table with columns and no row (a sheet with a header only) the
  report raises \<^verbatim>\<open>ZeroDivisionError\<close> at the uniqueness ratio.
\<close>

theorem quality_report_empty_table:
  "generate_quality_report empty_table
     = Inr \<lparr> missing_data_percentage = NaN, duplicate_rows = 0,
             avg_categorical_uniqueness = None, potential_outliers = 0 \<rparr>
   \<and> generate_quality_report header_only = Inl ZeroDivisionError"
  by (simp add: generate_quality_report_def empty_table_def header_only_def missing_percentage_def
        total_nulls_def np_divide_def np_times_def duplicated_sum_def kept_rows_def
        uniqueness_ratio_def)

lemma null_count_le: "null_count c \<le> height c"
  by (cases c) (simp_all add: count_none_def)

lemma total_nulls_le:
  assumes "list_all (\<lambda>(n, c). height c = r) cs"
  shows "sum_list (map (\<lambda>(n, c). null_count c) cs) \<le> r * length cs"
  using assms
proof (induction cs)
  case Nil
  then show ?case by simp
next
  case (Cons a cs)
  obtain n c where a: "a = (n, c)" by (cases a)
  have "null_count c \<le> r" using Cons.prems null_count_le [of c] by (simp add: a)
  moreover have "sum_list (map (\<lambda>(n, c). null_count c) cs) \<le> r * length cs"
    using Cons by simp
  ultimately show ?case by (simp add: a)
qed

lemma total_nulls_zero_iff:
  "total_nulls df = 0 \<longleftrightarrow> (\<forall>(n, c) \<in> set (cols df). null_count c = 0)"
  by (auto simp: total_nulls_def sum_list_eq_0_iff)

text \<open>For a table with at least one row and one column, whose columns all have the length
  of the index, the percentage of missing data is a number between 0 and 100, and it is
  0 exactly when no column has a null cell.\<close>

lemma missing_percentage_bounds:
  assumes "wf_frame df" and "0 < nrows df" and "cols df \<noteq> []"
  shows "\<exists>p. missing_percentage df = Fin p \<and> 0 \<le> p \<and> p \<le> 100
             \<and> (p = 0 \<longleftrightarrow> (\<forall>(n, c) \<in> set (cols df). null_count c = 0))"
proof -
  let ?cells = "nrows df * length (cols df)"
  let ?p = "of_nat (total_nulls df) / of_nat ?cells * (100 :: rat)"
  have pos: "0 < ?cells" using assms(2,3) by simp
  have le: "total_nulls df \<le> ?cells"
    using total_nulls_le [of "nrows df" "cols df"] assms(1) by (simp add: wf_frame_def total_nulls_def)
  have eq: "missing_percentage df = Fin ?p"
    using pos by (simp add: missing_percentage_def np_divide_def np_times_def)
  have "(of_nat (total_nulls df) :: rat) \<le> of_nat ?cells" using le by (simp only: of_nat_le_iff)
  then have "(of_nat (total_nulls df) :: rat) / of_nat ?cells \<le> 1"
    using pos by (simp add: divide_le_eq_1)
  then have "(of_nat (total_nulls df) :: rat) / of_nat ?cells * 100 \<le> 1 * 100"
    by (rule mult_right_mono) simp
  then have up: "?p \<le> 100" by (simp only: mult_1)
  have lo: "0 \<le> ?p" by simp
  have "?p = 0 \<longleftrightarrow> total_nulls df = 0" using pos by simp
  then have z: "?p = 0 \<longleftrightarrow> (\<forall>(n, c) \<in> set (cols df). null_count c = 0)"
    by (simp only: total_nulls_zero_iff)
  from eq lo up z show ?thesis by blast
qed

section \<open>Cleaning\<close>

lemma new_obj_old:
  assumes "wf_store h" and "new_obj h v = (a, h')"
  shows "a = next_addr h" and "objs h a = None" and "objs h' a = Some v" and "wf_store h'"
    and "next_addr h' = Suc (next_addr h)" and "\<forall>b. b \<noteq> a \<longrightarrow> objs h' b = objs h b"
proof -
  show a: "a = next_addr h" using assms(2) by (auto simp: new_obj_def)
  have h': "h' = h\<lparr> objs := (objs h)(next_addr h \<mapsto> v), next_addr := Suc (next_addr h) \<rparr>"
    using assms(2) by (auto simp: new_obj_def)
  have "\<not> next_addr h < next_addr h" by simp
  then show "objs h a = None" using assms(1) a unfolding wf_store_def by blast
  show "objs h' a = Some v" by (simp add: h' a)
  show "next_addr h' = Suc (next_addr h)" by (simp add: h')
  show "\<forall>b. b \<noteq> a \<longrightarrow> objs h' b = objs h b" by (simp add: h' a)
  show "wf_store h'"
    unfolding wf_store_def
  proof (intro allI impI)
    fix b assume b: "objs h' b \<noteq> None"
    show "b < next_addr h'"
    proof (cases "b = next_addr h")
      case True
      then show ?thesis by (simp add: h')
    next
      case False
      then have "objs h b \<noteq> None" using b by (simp add: h')
      then have "b < next_addr h" using assms(1) by (simp add: wf_store_def)
      then show ?thesis by (simp add: h')
    qed
  qed
qed

lemma update_obj_other: "b \<noteq> a \<Longrightarrow> objs (update_obj h a f) b = objs h b"
  by (simp add: update_obj_def)

lemma update_obj_same: "objs (update_obj h a f) a = map_option f (objs h a)"
  by (simp add: update_obj_def)

text \<open>
  Claim C8. In a store where every object lies below \<open>next_addr\<close>, \<^verbatim>\<open>clean_data\<close> called on
  the table at address \<open>df\<close>, with any options, returns the address of an object that did
  not exist before the call (a new table, different from \<open>df\<close>), and after the call the
  object at \<open>df\<close>, like every object that existed before, has the value it had.
\<close>

theorem clean_data_leaves_input:
  assumes "wf_store h" and "objs h df = Some v"
  shows "\<exists>cleaned_df h'. clean_data h df cleaning_options = Some (cleaned_df, h')
           \<and> cleaned_df \<noteq> df
           \<and> objs h cleaned_df = None
           \<and> objs h' cleaned_df \<noteq> None
           \<and> objs h' df = Some v
           \<and> (\<forall>a. objs h a \<noteq> None \<longrightarrow> objs h' a = objs h a)"
proof -
  define opts where
    "opts = (case cleaning_options of None \<Rightarrow> default_cleaning_options | Some d \<Rightarrow> d)"
  obtain c1 h1 where n1: "new_obj h v = (c1, h1)" by (cases "new_obj h v")
  have p1: "c1 = next_addr h" "objs h c1 = None" "objs h1 c1 = Some v" "wf_store h1"
    "next_addr h1 = Suc (next_addr h)" "\<forall>b. b \<noteq> c1 \<longrightarrow> objs h1 b = objs h b"
    using new_obj_old [OF assms(1) n1] by blast+
  define r2 where "r2 = (if get_option opts ''remove_duplicates''
                  then new_obj h1 (drop_duplicates v) else (c1, h1))"
  obtain c2 h2 where n2: "r2 = (c2, h2)" by (cases r2)
  have old_lt: "a < next_addr h" if "objs h a \<noteq> None" for a
    using assms(1) that by (simp add: wf_store_def)
  have p2: "next_addr h \<le> c2 \<and> objs h c2 = None \<and> objs h2 c2 \<noteq> None
            \<and> (\<forall>a. objs h a \<noteq> None \<longrightarrow> objs h2 a = objs h a)"
  proof (cases "get_option opts ''remove_duplicates''")
    case True
    then have "new_obj h1 (drop_duplicates v) = (c2, h2)" using n2 by (simp add: r2_def)
    then have q: "c2 = next_addr h1" "objs h1 c2 = None" "objs h2 c2 = Some (drop_duplicates v)"
      "\<forall>b. b \<noteq> c2 \<longrightarrow> objs h2 b = objs h1 b"
      using new_obj_old [OF p1(4)] by blast+
    have c2: "c2 = Suc (next_addr h)" using q(1) p1(5) by simp
    have "objs h c2 = None"
    proof (rule ccontr)
      assume "objs h c2 \<noteq> None"
      then have "c2 < next_addr h" by (rule old_lt)
      then show False using c2 by simp
    qed
    moreover have "objs h2 a = objs h a" if "objs h a \<noteq> None" for a
    proof -
      have "a < next_addr h" using that by (rule old_lt)
      then have "a \<noteq> c2" "a \<noteq> c1" using c2 p1(1) by simp_all
      then show ?thesis using q(4) p1(6) by simp
    qed
    ultimately show ?thesis using c2 q(3) by simp
  next
    case False
    then have "c2 = c1" "h2 = h1" using n2 by (simp_all add: r2_def)
    moreover have "objs h1 a = objs h a" if "objs h a \<noteq> None" for a
    proof -
      have "a < next_addr h" using that by (rule old_lt)
      then have "a \<noteq> c1" using p1(1) by simp
      then show ?thesis using p1(6) by simp
    qed
    ultimately show ?thesis using p1 by simp
  qed
  define h3 where "h3 = (if get_option opts ''fill_numeric_missing''
                    then update_obj h2 c2 (map_columns fill_numeric_missing) else h2)"
  define h4 where "h4 = (if get_option opts ''fill_categorical_missing''
                    then update_obj h3 c2 (map_columns fill_categorical_missing) else h3)"
  have p3: "objs h3 c2 \<noteq> None \<and> (\<forall>a. a \<noteq> c2 \<longrightarrow> objs h3 a = objs h2 a)"
    using p2 by (auto simp: h3_def update_obj_other update_obj_same)
  have p4: "objs h4 c2 \<noteq> None \<and> (\<forall>a. a \<noteq> c2 \<longrightarrow> objs h4 a = objs h3 a)"
    using p3 by (auto simp: h4_def update_obj_other update_obj_same)
  have res: "clean_data h df cleaning_options = Some (c2, h4)"
    using assms(2) n1 n2 [unfolded r2_def opts_def]
    by (simp add: clean_data_def Let_def h4_def h3_def opts_def)
  have keep: "objs h4 a = objs h a" if "objs h a \<noteq> None" for a
  proof -
    have "a \<noteq> c2" using that p2 by auto
    then show ?thesis using p2 p3 p4 that by simp
  qed
  have "c2 \<noteq> df" using p2 assms(2) by auto
  moreover have "objs h4 df = Some v" using keep [of df] assms(2) by simp
  ultimately show ?thesis using res p2 p4 keep by blast
qed


theorem clean_data_leaves_input_witness:
  "\<exists>cleaned_df h'. clean_data session_store 0 (Some all_options) = Some (cleaned_df, h')
      \<and> cleaned_df \<noteq> 0
      \<and> objs session_store cleaned_df = None
      \<and> objs h' cleaned_df \<noteq> None
      \<and> objs h' 0 = Some sample_table
      \<and> (\<forall>a. objs session_store a \<noteq> None \<longrightarrow> objs h' a = objs session_store a)"
proof -
  have "wf_store session_store" by (simp add: wf_store_def session_store_def)
  moreover have "objs session_store 0 = Some sample_table" by (simp add: session_store_def)
  ultimately show ?thesis by (rule clean_data_leaves_input)
qed

text \<open>The result of cleaning the sample table with every step on: the duplicate row is
  gone, the missing amount is the median and the missing unit the first mode.\<close>

lemma clean_data_example:
  "map_option (\<lambda>(cleaned_df, h'). (cleaned_df, objs h' cleaned_df, objs h' 0))
     (clean_data session_store 0 (Some all_options))
   = Some (2,
           Some \<lparr> nrows = 3,
                  cols = [(''amount'', Num [Some 1, Some (5 / 2), Some 4]),
                          (''unit'', Obj [Some ''kg'', Some ''g'', Some ''g''])] \<rparr>,
           Some sample_table)"
  by (simp add: clean_data_def session_store_def all_options_def sample_table_def new_obj_def
        update_obj_def get_option_def drop_duplicates_def kept_rows_def rows_def map_columns_def
        median_def mode_def fillna_def dropna_def Let_def upt_rec)

end
